theory Spec2Isabelle
  imports Main "HOL-Library.Sublist"
begin

section \<open>Characters and Python string primitives\<close>

text \<open>
  The program is \<^verbatim>\<open>convert_jsx.py\<close>: a regular-expression driven rewriting of JSX
  markup in \<^verbatim>\<open>return\<close> statements into \<^verbatim>\<open>React.createElement\<close> calls.

  A Python \<^verbatim>\<open>str\<close> is a sequence of code points; the model is a \<^typ>\<open>string\<close> whose
  characters are the code points below 256.  The classes \<^verbatim>\<open>\s\<close> and \<^verbatim>\<open>\w\<close> of
  Python's \<^verbatim>\<open>re\<close> (on \<^verbatim>\<open>str\<close> patterns) and the set stripped by \<^verbatim>\<open>str.strip()\<close>
  are given on that range.
\<close>

definition NL :: char where
  "NL = CHR 0x0A"

definition sq :: char where
  "sq = CHR 0x27"

definition dq :: char where
  "dq = CHR 0x22"

definition is_space :: "char \<Rightarrow> bool" where
  "is_space c =
     (let n = (of_char c :: nat)
      in (9 \<le> n \<and> n \<le> 13) \<or> (28 \<le> n \<and> n \<le> 32) \<or> n = 133 \<or> n = 160)"

definition is_word :: "char \<Rightarrow> bool" where
  "is_word c =
     (let n = (of_char c :: nat)
      in (48 \<le> n \<and> n \<le> 57) \<or> (65 \<le> n \<and> n \<le> 90) \<or> n = 95 \<or> (97 \<le> n \<and> n \<le> 122)
         \<or> n = 170 \<or> n = 178 \<or> n = 179 \<or> n = 181 \<or> n = 185 \<or> n = 186
         \<or> (188 \<le> n \<and> n \<le> 190) \<or> (192 \<le> n \<and> n \<le> 214)
         \<or> (216 \<le> n \<and> n \<le> 246) \<or> (248 \<le> n \<and> n \<le> 255))"

definition any_char :: "char \<Rightarrow> bool" where
  "any_char c = True"

definition not_char :: "char \<Rightarrow> char \<Rightarrow> bool" where
  "not_char a c = (c \<noteq> a)"

definition not_brace :: "char \<Rightarrow> bool" where
  "not_brace c = (c \<noteq> CHR ''{'' \<and> c \<noteq> CHR ''}'')"

text \<open>\<^verbatim>\<open>s.strip()\<close>: whitespace removed at both ends.\<close>

definition strip :: "string \<Rightarrow> string" where
  "strip s = rev (dropWhile is_space (rev (dropWhile is_space s)))"

text \<open>\<^verbatim>\<open>str(n)\<close> for a list length: the decimal digits, most significant first.\<close>

definition digit :: "nat \<Rightarrow> char" where
  "digit d = ''0123456789'' ! d"

fun str_nat :: "nat \<Rightarrow> string" where
  "str_nat n = (if n < 10 then [digit n] else str_nat (n div 10) @ [digit (n mod 10)])"

declare str_nat.simps [simp del]

text \<open>
  \<^verbatim>\<open>s.replace(old, new)\<close>: the occurrences of \<open>old\<close> found left to right, not
  overlapping, each replaced.  With an empty \<open>old\<close> Python puts \<open>new\<close> before every
  character and at the end.
\<close>

function replace :: "string \<Rightarrow> string \<Rightarrow> string \<Rightarrow> string" where
  "replace old new [] = (if old = [] then new else [])"
| "replace old new (c # cs) =
     (if old = [] then new @ c # replace old new cs
      else if prefix old (c # cs) then new @ replace old new (drop (length old) (c # cs))
      else c # replace old new cs)"
  by pat_completeness auto
termination
  by (relation "measure (\<lambda>(old, new, s). length s)") auto

text \<open>\<^verbatim>\<open>sep.join(xs)\<close>.\<close>

fun join :: "string \<Rightarrow> string list \<Rightarrow> string" where
  "join sep [] = []"
| "join sep [x] = x"
| "join sep (x # y # ys) = x @ sep @ join sep (y # ys)"

section \<open>Errors and values that may be None\<close>

text \<open>
  \<^verbatim>\<open>match.group(k)\<close> is \<^verbatim>\<open>None\<close> for a group that took no part in the match, so
  it is a \<^typ>\<open>string option\<close>.  The program calls string methods on such values;
  on \<^verbatim>\<open>None\<close> Python raises, and the model returns the error.
\<close>

datatype error = AttributeError | TypeError

definition bnd :: "error + 'a \<Rightarrow> ('a \<Rightarrow> error + 'b) \<Rightarrow> error + 'b" where
  "bnd x f = (case x of Inl e \<Rightarrow> Inl e | Inr v \<Rightarrow> f v)"

text \<open>\<^verbatim>\<open>x.strip()\<close>\<close>

definition py_strip :: "string option \<Rightarrow> error + string" where
  "py_strip x = (case x of None \<Rightarrow> Inl AttributeError | Some s \<Rightarrow> Inr (strip s))"

text \<open>\<^verbatim>\<open>x + s\<close>\<close>

definition py_add :: "string option \<Rightarrow> string \<Rightarrow> error + string" where
  "py_add x s = (case x of None \<Rightarrow> Inl TypeError | Some t \<Rightarrow> Inr (t @ s))"

text \<open>\<^verbatim>\<open>c in x\<close>\<close>

definition py_in :: "char \<Rightarrow> string option \<Rightarrow> error + bool" where
  "py_in c x = (case x of None \<Rightarrow> Inl TypeError | Some t \<Rightarrow> Inr (c \<in> set t))"

text \<open>The interpolation \<^verbatim>\<open>{x}\<close> of an f-string.\<close>

definition fmt :: "string option \<Rightarrow> string" where
  "fmt x = (case x of None \<Rightarrow> ''None'' | Some s \<Rightarrow> s)"

text \<open>\<^verbatim>\<open>if x:\<close> on a value that is a string or None.\<close>

definition truthy :: "string option \<Rightarrow> bool" where
  "truthy x = (case x of None \<Rightarrow> False | Some s \<Rightarrow> s \<noteq> [])"

section \<open>Backtracking regular expressions\<close>

text \<open>
  A matcher maps a state (the character before the position, the text from the
  position on, the capture groups) to the list of all states in which it can stop, in
  the order in which Python's backtracking engine tries them.  The engine returns the
  first success of the whole pattern, so the head of the list is the match.
\<close>

record mstate =
  prev :: "char option"
  rest :: string
  caps :: "nat \<Rightarrow> string option"

type_synonym matcher = "mstate \<Rightarrow> mstate list"

definition eps :: matcher where
  "eps s = [s]"

text \<open>One character of a class.\<close>

definition one :: "(char \<Rightarrow> bool) \<Rightarrow> matcher" where
  "one p s =
     (case rest s of
        [] \<Rightarrow> []
      | c # cs \<Rightarrow> if p c then [s\<lparr>prev := Some c, rest := cs\<rparr>] else [])"

definition chr :: "char \<Rightarrow> matcher" where
  "chr a = one (\<lambda>c. c = a)"

definition seq :: "matcher \<Rightarrow> matcher \<Rightarrow> matcher" where
  "seq a b s = concat (map b (a s))"

definition seqs :: "matcher list \<Rightarrow> matcher" where
  "seqs ms = foldr seq ms eps"

definition lit :: "string \<Rightarrow> matcher" where
  "lit w = seqs (map chr w)"

text \<open>\<^verbatim>\<open>a|b\<close>: the alternatives in order.\<close>

definition alt :: "matcher \<Rightarrow> matcher \<Rightarrow> matcher" where
  "alt a b s = a s @ b s"

text \<open>\<^verbatim>\<open>a?\<close> (greedy): with \<open>a\<close> first, then without.\<close>

definition opt :: "matcher \<Rightarrow> matcher" where
  "opt a = alt a eps"

text \<open>\<^verbatim>\<open>[class]*\<close> (greedy): the longest run first, then each shorter one.\<close>

fun star_run :: "(char \<Rightarrow> bool) \<Rightarrow> char option \<Rightarrow> string \<Rightarrow> (char option \<times> string) list" where
  "star_run p pv [] = [(pv, [])]"
| "star_run p pv (c # cs) =
     (if p c then star_run p (Some c) cs @ [(pv, c # cs)] else [(pv, c # cs)])"

definition star :: "(char \<Rightarrow> bool) \<Rightarrow> matcher" where
  "star p s = map (\<lambda>(pv, r). s\<lparr>prev := pv, rest := r\<rparr>) (star_run p (prev s) (rest s))"

text \<open>\<^verbatim>\<open>[class]+\<close> (greedy).\<close>

definition plus :: "(char \<Rightarrow> bool) \<Rightarrow> matcher" where
  "plus p = seq (one p) (star p)"

text \<open>\<^verbatim>\<open>[class]*?\<close> (lazy): the empty run first, then each longer one.\<close>

fun lazy_run :: "(char \<Rightarrow> bool) \<Rightarrow> char option \<Rightarrow> string \<Rightarrow> (char option \<times> string) list" where
  "lazy_run p pv [] = [(pv, [])]"
| "lazy_run p pv (c # cs) =
     (pv, c # cs) # (if p c then lazy_run p (Some c) cs else [])"

definition star_lazy :: "(char \<Rightarrow> bool) \<Rightarrow> matcher" where
  "star_lazy p s = map (\<lambda>(pv, r). s\<lparr>prev := pv, rest := r\<rparr>) (lazy_run p (prev s) (rest s))"

text \<open>
  \<^verbatim>\<open>(?:a)*\<close> (greedy) for a compound \<open>a\<close>: one more round of \<open>a\<close> first, then
  stopping here.  A round that consumes nothing is not repeated.  Each round consumes a
  character, so the length of the text bounds the number of rounds.
\<close>

primrec rep_n :: "nat \<Rightarrow> matcher \<Rightarrow> matcher" where
  "rep_n 0 a s = [s]"
| "rep_n (Suc n) a s =
     concat (map (rep_n n a) (filter (\<lambda>s'. length (rest s') < length (rest s)) (a s))) @ [s]"

definition rep :: "matcher \<Rightarrow> matcher" where
  "rep a s = rep_n (length (rest s)) a s"

text \<open>The text between two states of one match.\<close>

definition consumed :: "mstate \<Rightarrow> mstate \<Rightarrow> string" where
  "consumed s s' = take (length (rest s) - length (rest s')) (rest s)"

text \<open>\<^verbatim>\<open>(a)\<close> as capture group \<open>k\<close>.\<close>

definition grp :: "nat \<Rightarrow> matcher \<Rightarrow> matcher" where
  "grp k a s = map (\<lambda>s'. s'\<lparr>caps := (caps s')(k \<mapsto> consumed s s')\<rparr>) (a s)"

text \<open>The backreference \<^verbatim>\<open>\k\<close>: fails when the group is unset.\<close>

definition bref :: "nat \<Rightarrow> matcher" where
  "bref k s = (case caps s k of None \<Rightarrow> [] | Some w \<Rightarrow> lit w s)"

text \<open>\<^verbatim>\<open>^\<close> with and without \<^verbatim>\<open>re.MULTILINE\<close>, and \<^verbatim>\<open>$\<close> without it.\<close>

definition bol :: matcher where
  "bol s = (if prev s = None \<or> prev s = Some NL then [s] else [])"

definition bos :: matcher where
  "bos s = (if prev s = None then [s] else [])"

definition eos :: matcher where
  "eos s = (if rest s = [] \<or> rest s = [NL] then [s] else [])"

text \<open>
  A match object: \<^verbatim>\<open>group(0)\<close> is the matched text, \<^verbatim>\<open>group(k)\<close> the groups; the
  model keeps where the match ended to go on from there.
\<close>

record rmatch =
  group0 :: string
  group :: "nat \<Rightarrow> string option"
  end_prev :: "char option"
  end_rest :: string

definition match_at :: "matcher \<Rightarrow> char option \<Rightarrow> string \<Rightarrow> rmatch option" where
  "match_at pat pv cs =
     (let s = \<lparr>prev = pv, rest = cs, caps = (\<lambda>k. None)\<rparr>
      in case pat s of
           [] \<Rightarrow> None
         | s' # _ \<Rightarrow> Some \<lparr>group0 = consumed s s', group = caps s',
                          end_prev = prev s', end_rest = rest s'\<rparr>)"

text \<open>\<^verbatim>\<open>re.match(pat, s)\<close>: a match at the start of the string.\<close>

definition re_match :: "matcher \<Rightarrow> string \<Rightarrow> rmatch option" where
  "re_match pat s = match_at pat None s"

text \<open>
  \<^verbatim>\<open>re.sub(pat, f, s)\<close> with a function \<open>f\<close>: from left to right, the first match at
  the leftmost position is replaced by what \<open>f\<close> returns for it and the scan goes on
  after the match.  \<open>f\<close> may change a state of its own (the closure of
  \<^verbatim>\<open>protect_expression\<close> appends to a list) and may raise.  Every pattern of the
  program consumes a character; for a match that consumes none, the replacement is
  written and the scan moves one character on.
\<close>

function re_sub ::
  "matcher \<Rightarrow> ('st \<Rightarrow> rmatch \<Rightarrow> error + (string \<times> 'st)) \<Rightarrow> 'st \<Rightarrow> char option \<Rightarrow> string
     \<Rightarrow> error + (string \<times> 'st)" where
  "re_sub pat f st pv [] =
     (case match_at pat pv [] of
        None \<Rightarrow> Inr ([], st)
      | Some m \<Rightarrow> f st m)"
| "re_sub pat f st pv (c # cs) =
     (case match_at pat pv (c # cs) of
        None \<Rightarrow> bnd (re_sub pat f st (Some c) cs) (\<lambda>(out, st'). Inr (c # out, st'))
      | Some m \<Rightarrow>
          bnd (f st m) (\<lambda>(r, st1).
            if length (end_rest m) < length (c # cs)
            then bnd (re_sub pat f st1 (end_prev m) (end_rest m)) (\<lambda>(out, st'). Inr (r @ out, st'))
            else bnd (re_sub pat f st1 (Some c) cs) (\<lambda>(out, st'). Inr (r @ c # out, st'))))"
  by pat_completeness auto
termination
  by (relation "measure (\<lambda>(pat, f, st, pv, s). length s)") auto

text \<open>\<^verbatim>\<open>re.finditer(pat, s)\<close>: the matches \<^verbatim>\<open>re.sub\<close> would replace, in order.\<close>

function finditer :: "matcher \<Rightarrow> char option \<Rightarrow> string \<Rightarrow> rmatch list" where
  "finditer pat pv [] =
     (case match_at pat pv [] of None \<Rightarrow> [] | Some m \<Rightarrow> [m])"
| "finditer pat pv (c # cs) =
     (case match_at pat pv (c # cs) of
        None \<Rightarrow> finditer pat (Some c) cs
      | Some m \<Rightarrow>
          if length (end_rest m) < length (c # cs)
          then m # finditer pat (end_prev m) (end_rest m)
          else m # finditer pat (Some c) cs)"
  by pat_completeness auto
termination
  by (relation "measure (\<lambda>(pat, pv, s). length s)") auto

section \<open>The patterns of the program\<close>

text \<open>\<^verbatim>\<open>r'\{[^{}]*\}'\<close>\<close>

definition protect_re :: matcher where
  "protect_re = seqs [chr CHR ''{'', star not_brace, chr CHR ''}'']"

text \<open>\<^verbatim>\<open>r'^(\s*)return\s+\(\s*\n?\s*(<[\s\S]*?>[\s\S]*?<\/[^>]+>)\s*\);'\<close> with
  \<^verbatim>\<open>re.MULTILINE\<close>\<close>

definition return_paren_re :: matcher where
  "return_paren_re =
     seqs [bol, grp 1 (star is_space), lit ''return'', plus is_space, chr CHR ''('',
           star is_space, opt (chr NL), star is_space,
           grp 2 (seqs [chr CHR ''<'', star_lazy any_char, chr CHR ''>'', star_lazy any_char,
                        lit ''</'', plus (not_char CHR ''>''), chr CHR ''>'']),
           star is_space, lit '');'']"

text \<open>\<^verbatim>\<open>r'^(\s*)return\s+(<[^;]+>);'\<close> with \<^verbatim>\<open>re.MULTILINE\<close>\<close>

definition return_inline_re :: matcher where
  "return_inline_re =
     seqs [bol, grp 1 (star is_space), lit ''return'', plus is_space,
           grp 2 (seqs [chr CHR ''<'', plus (not_char CHR '';''), chr CHR ''>'']),
           chr CHR '';'']"

text \<open>\<^verbatim>\<open>r'^<(\w+)([^>]*?)\/>\s*$'\<close>\<close>

definition self_closing_re :: matcher where
  "self_closing_re =
     seqs [bos, chr CHR ''<'', grp 1 (plus is_word), grp 2 (star_lazy (not_char CHR ''>'')),
           lit ''/>'', star is_space, eos]"

text \<open>\<^verbatim>\<open>r'^<(\w+)([^>]*?)>([\s\S]*)<\/\1>\s*$'\<close>\<close>

definition element_re :: matcher where
  "element_re =
     seqs [bos, chr CHR ''<'', grp 1 (plus is_word), grp 2 (star_lazy (not_char CHR ''>'')),
           chr CHR ''>'', grp 3 (star any_char), lit ''</'', bref 1, chr CHR ''>'',
           star is_space, eos]"

text \<open>\<^verbatim>\<open>r'(\w+(?:-\w+)*)(?:=(?:\{([^}]*)\}|"([^"]*)"|\'([^\']*)\'))?'\<close>, written in
  three parts: the name \<^verbatim>\<open>\w+(?:-\w+)*\<close> of group 1, the value
  \<^verbatim>\<open>=(?:\{([^}]*)\}|"([^"]*)"|\'([^\']*)\')\<close>, and the whole pattern.\<close>

definition attr_name_re :: matcher where
  "attr_name_re = seqs [plus is_word, rep (seqs [chr CHR ''-'', plus is_word])]"

definition attr_value_re :: matcher where
  "attr_value_re =
     seqs [chr CHR ''='',
           alt (seqs [chr CHR ''{'', grp 2 (star (not_char CHR ''}'')), chr CHR ''}''])
          (alt (seqs [chr dq, grp 3 (star (not_char dq)), chr dq])
               (seqs [chr sq, grp 4 (star (not_char sq)), chr sq]))]"

definition attr_pattern :: matcher where
  "attr_pattern = seqs [grp 1 attr_name_re, opt attr_value_re]"

section \<open>The program\<close>

subsection \<open>\<^verbatim>\<open>convert_children\<close>\<close>

definition convert_children :: "string \<Rightarrow> string \<Rightarrow> string" where
  "convert_children children_str indent =
     (if CHR ''<'' \<notin> set children_str then [sq] @ strip children_str @ [sq]
      else [sq] @ children_str @ [sq])"

subsection \<open>\<^verbatim>\<open>parse_attributes\<close>\<close>

text \<open>The value of one attribute: the first group that is neither None nor empty.\<close>

definition attr_value :: "rmatch \<Rightarrow> string" where
  "attr_value m =
     (if truthy (group m 2) then fmt (group m 2)
      else if truthy (group m 3) then [sq] @ fmt (group m 3) @ [sq]
      else if truthy (group m 4) then [sq] @ fmt (group m 4) @ [sq]
      else ''true'')"

text \<open>The key of one attribute; \<^verbatim>\<open>"-" in name\<close> raises on None.\<close>

definition attr_name :: "string option \<Rightarrow> error + string" where
  "attr_name name =
     (if name = Some ''class'' then Inr ''className''
      else if name = Some ''for'' then Inr ''htmlFor''
      else bnd (py_in CHR ''-'' name) (\<lambda>b.
             if b then Inr ([sq] @ fmt name @ [sq]) else Inr (fmt name)))"

text \<open>The body of the loop over the matches, and the loop.\<close>

definition attr_entry :: "rmatch \<Rightarrow> error + string" where
  "attr_entry m = bnd (attr_name (group m 1)) (\<lambda>name. Inr (name @ '': '' @ attr_value m))"

fun attr_loop :: "string list \<Rightarrow> rmatch list \<Rightarrow> error + string list" where
  "attr_loop attrs [] = Inr attrs"
| "attr_loop attrs (m # ms) = bnd (attr_entry m) (\<lambda>e. attr_loop (attrs @ [e]) ms)"

definition parse_attributes :: "string \<Rightarrow> error + string" where
  "parse_attributes attrs_str =
     (if strip attrs_str = [] then Inr ''null''
      else bnd (attr_loop [] (finditer attr_pattern None attrs_str)) (\<lambda>attrs.
             if attrs \<noteq> [] then Inr (''{ '' @ join '', '' attrs @ '' }'') else Inr ''null''))"

subsection \<open>\<^verbatim>\<open>convert_jsx_element\<close>\<close>

text \<open>
  \<^verbatim>\<open>attrs\<close> is a group of the match; \<^verbatim>\<open>parse_attributes\<close> calls \<^verbatim>\<open>strip\<close> on
  it first, which raises on None.
\<close>

definition parse_attributes_of :: "string option \<Rightarrow> error + string" where
  "parse_attributes_of attrs =
     (case attrs of None \<Rightarrow> Inl AttributeError | Some a \<Rightarrow> parse_attributes a)"

definition call2 :: "string option \<Rightarrow> string \<Rightarrow> string" where
  "call2 tag props = ''React.createElement('' @ [sq] @ fmt tag @ [sq] @ '', '' @ props @ '')''"

definition call3 :: "string \<Rightarrow> string option \<Rightarrow> string \<Rightarrow> string \<Rightarrow> string" where
  "call3 indent tag props children_elements =
     ''React.createElement('' @ [NL] @ indent @ ''  '' @ [sq] @ fmt tag @ [sq] @ '','' @ [NL]
       @ indent @ ''  '' @ props @ '','' @ [NL]
       @ indent @ ''  '' @ children_elements @ [NL]
       @ indent @ '')''"

definition convert_jsx_element :: "string \<Rightarrow> string \<Rightarrow> error + string" where
  "convert_jsx_element jsx indent =
     (case re_match self_closing_re (strip jsx) of
        Some m \<Rightarrow>
          bnd (parse_attributes_of (group m 2)) (\<lambda>props. Inr (call2 (group m 1) props))
      | None \<Rightarrow>
          (case re_match element_re (strip jsx) of
             Some m \<Rightarrow>
               bnd (parse_attributes_of (group m 2)) (\<lambda>props.
               bnd (py_strip (group m 3)) (\<lambda>children.
                 if children \<noteq> [] then
                   (let children_elements = convert_children children (indent @ ''  '')
                    in if children_elements \<noteq> []
                       then Inr (call3 indent (group m 1) props children_elements)
                       else Inr (call2 (group m 1) props))
                 else Inr (call2 (group m 1) props)))
           | None \<Rightarrow> Inr jsx))"

subsection \<open>\<^verbatim>\<open>convert_jsx_to_createElement\<close>\<close>

text \<open>The placeholder \<^verbatim>\<open>f"__PROTECTED_{idx}__"\<close>.\<close>

definition placeholder :: "nat \<Rightarrow> string" where
  "placeholder idx = ''__PROTECTED_'' @ str_nat idx @ ''__''"

text \<open>
  \<^verbatim>\<open>protect_expression\<close>: the list \<^verbatim>\<open>protected_expressions\<close> is its state.
\<close>

definition protect_expression :: "string list \<Rightarrow> rmatch \<Rightarrow> error + (string \<times> string list)" where
  "protect_expression protected_expressions m =
     (let idx = length protected_expressions
      in Inr (placeholder idx, protected_expressions @ [group0 m]))"

text \<open>
  \<^verbatim>\<open>convert_return_jsx\<close>, and the lambda of the second substitution, which
  computes the same.  Neither has a state.
\<close>

definition convert_return_jsx :: "unit \<Rightarrow> rmatch \<Rightarrow> error + (string \<times> unit)" where
  "convert_return_jsx u m =
     (let indent = group m 1; jsx_content = group m 2
      in bnd (py_strip jsx_content) (\<lambda>jsx.
         bnd (py_add indent ''  '') (\<lambda>indent2.
         bnd (convert_jsx_element jsx indent2) (\<lambda>converted.
           Inr (fmt indent @ ''return '' @ converted @ '';'', u)))))"

text \<open>The loop that restores the protected expressions, in the order of the list.\<close>

fun restore :: "nat \<Rightarrow> string list \<Rightarrow> string \<Rightarrow> string" where
  "restore idx [] content = content"
| "restore idx (expr # exprs) content =
     restore (Suc idx) exprs (replace (placeholder idx) expr content)"

definition protect :: "string \<Rightarrow> error + (string \<times> string list)" where
  "protect content = re_sub protect_re protect_expression [] None content"

definition convert_jsx_to_createElement :: "string \<Rightarrow> error + string" where
  "convert_jsx_to_createElement content =
     bnd (protect content) (\<lambda>(content1, protected_expressions).
     bnd (re_sub return_paren_re convert_return_jsx () None content1) (\<lambda>(content2, u).
     bnd (re_sub return_inline_re convert_return_jsx () None content2) (\<lambda>(content3, u).
       Inr (restore 0 protected_expressions content3))))"

text \<open>The protection immediately followed by the restoration, with nothing between.\<close>

definition protect_then_restore :: "string \<Rightarrow> error + string" where
  "protect_then_restore content =
     bnd (protect content) (\<lambda>(content1, protected_expressions).
       Inr (restore 0 protected_expressions content1))"


text \<open>A text is an attribute name: the name part of the attribute pattern matches all of it.\<close>

definition is_name :: "string \<Rightarrow> bool" where
  "is_name nm = (case re_match attr_name_re nm of None \<Rightarrow> False | Some m \<Rightarrow> end_rest m = [])"





section \<open>Notions used in the proofs\<close>

text \<open>
  A matcher keeps the groups when every group set before it is set after it, and it sets
  group \<open>k\<close> when that group is set in every state it stops in.
\<close>

definition keeps :: "matcher \<Rightarrow> bool" where
  "keeps a = (\<forall>s s' k. s' \<in> set (a s) \<longrightarrow> caps s k \<noteq> None \<longrightarrow> caps s' k \<noteq> None)"

definition sets_grp :: "nat \<Rightarrow> matcher \<Rightarrow> bool" where
  "sets_grp k a = (\<forall>s s'. s' \<in> set (a s) \<longrightarrow> caps s' k \<noteq> None)"

text \<open>
  What is left of a text after the rounds \<^verbatim>\<open>-\w+\<close> that the name of an attribute
  takes greedily.
\<close>

function name_tail :: "string \<Rightarrow> string" where
  "name_tail [] = []"
| "name_tail [c] = [c]"
| "name_tail (c # d # cs) =
     (if c = CHR ''-'' \<and> is_word d then name_tail (dropWhile is_word cs) else c # d # cs)"
  by pat_completeness auto
termination
  by (relation "measure length") (auto simp: length_dropWhile_le le_imp_less_Suc less_SucI)

text \<open>
  The protected buffer as a list of tokens: a character that stays, or a hole that stands
  for a protected expression.  \<open>tokens\<close> is the scan of the protection pattern,
  \<open>render\<close> writes the holes as placeholders numbered from \<open>i\<close>, \<open>flat\<close> writes them
  as their expressions, \<open>holes\<close> lists the expressions, \<open>lit_run\<close> is the text before
  the first hole.
\<close>

datatype tok = Lit char | Hole string

fun render :: "nat \<Rightarrow> tok list \<Rightarrow> string" where
  "render i [] = []"
| "render i (Lit c # ts) = c # render i ts"
| "render i (Hole e # ts) = placeholder i @ render (Suc i) ts"

fun flat :: "tok list \<Rightarrow> string" where
  "flat [] = []"
| "flat (Lit c # ts) = c # flat ts"
| "flat (Hole e # ts) = e @ flat ts"

fun holes :: "tok list \<Rightarrow> string list" where
  "holes [] = []"
| "holes (Lit c # ts) = holes ts"
| "holes (Hole e # ts) = e # holes ts"

fun lit_run :: "tok list \<Rightarrow> string" where
  "lit_run (Lit c # ts) = c # lit_run ts"
| "lit_run ts = []"

function tokens :: "string \<Rightarrow> tok list" where
  "tokens [] = []"
| "tokens (c # cs) =
     (if c = CHR ''{'' then
        (case dropWhile not_brace cs of
           [] \<Rightarrow> Lit c # tokens cs
         | d # r \<Rightarrow> if d = CHR ''}'' then Hole (c # takeWhile not_brace cs @ [d]) # tokens r
                    else Lit c # tokens cs)
      else Lit c # tokens cs)"
  by pat_completeness auto
termination
proof (relation "measure length")
  fix c :: char and cs :: string and d :: char and r :: string
  assume "dropWhile not_brace cs = d # r"
  then have "length (d # r) \<le> length cs"
    using length_dropWhile_le [of not_brace cs] by simp
  then show "(r, c # cs) \<in> measure length" by simp
qed simp_all

text \<open>The number that a string of decimal digits denotes.\<close>

definition dval :: "string \<Rightarrow> nat" where
  "dval ds = foldl (\<lambda>a c. 10 * a + (of_char c - 48)) 0 ds"

text \<open>
  A matcher advances when every state it stops in holds a suffix of the text it started
  on, and it begins a line when it only matches at the start of the text or after a
  newline.  A gap before such a match is empty or ends a line, and a replacement of the
  program ends with a semicolon; no placeholder can lie across the end of either.
\<close>

definition advances :: "matcher \<Rightarrow> bool" where
  "advances a = (\<forall>s s'. s' \<in> set (a s) \<longrightarrow> suffix (rest s') (rest s))"


definition gap_ok :: "string \<Rightarrow> bool" where
  "gap_ok g = (g = [] \<or> last g = NL)"



section \<open>Groups that every match sets\<close>

lemma keeps_eps [simp]: "keeps eps"
  by (simp add: keeps_def eps_def)

lemma keeps_one [simp]: "keeps (one p)"
  by (auto simp: keeps_def one_def split: list.splits if_splits)

lemma keeps_chr [simp]: "keeps (chr c)"
  by (simp add: chr_def)

lemma in_seq: "s' \<in> set (seq a b s) \<longleftrightarrow> (\<exists>s1. s1 \<in> set (a s) \<and> s' \<in> set (b s1))"
  by (auto simp: seq_def)

lemma in_seqs_Cons: "s' \<in> set (seqs (m # ms) s) \<longleftrightarrow> (\<exists>s1. s1 \<in> set (m s) \<and> s' \<in> set (seqs ms s1))"
  by (simp add: seqs_def in_seq)

lemma keeps_seq [simp]: "keeps a \<Longrightarrow> keeps b \<Longrightarrow> keeps (seq a b)"
  unfolding keeps_def in_seq by blast

lemma keeps_seqs [simp]: "list_all keeps ms \<Longrightarrow> keeps (seqs ms)"
  by (induction ms) (simp_all add: seqs_def)

lemma keeps_lit [simp]: "keeps (lit w)"
  unfolding lit_def by (rule keeps_seqs) (simp add: list_all_iff)

lemma keeps_alt [simp]: "keeps a \<Longrightarrow> keeps b \<Longrightarrow> keeps (alt a b)"
  unfolding keeps_def alt_def by auto

lemma keeps_opt [simp]: "keeps a \<Longrightarrow> keeps (opt a)"
  by (simp add: opt_def)

lemma keeps_star [simp]: "keeps (star p)"
  by (auto simp: keeps_def star_def)

lemma keeps_star_lazy [simp]: "keeps (star_lazy p)"
  by (auto simp: keeps_def star_lazy_def)

lemma keeps_plus [simp]: "keeps (plus p)"
  by (simp add: plus_def)

lemma keeps_rep_n: "keeps a \<Longrightarrow> keeps (rep_n n a)"
proof (induction n)
  case 0
  then show ?case by (simp add: keeps_def)
next
  case (Suc n)
  then have a: "keeps a" and n: "keeps (rep_n n a)" by simp_all
  show ?case
    unfolding keeps_def
  proof (intro allI impI)
    fix s s' k
    assume m: "s' \<in> set (rep_n (Suc n) a s)" and c: "caps s k \<noteq> None"
    from m consider "s' = s" | s1 where "s1 \<in> set (a s)" "s' \<in> set (rep_n n a s1)"
      by auto
    then show "caps s' k \<noteq> None"
    proof cases
      case 1
      with c show ?thesis by simp
    next
      case 2
      with a n c show ?thesis unfolding keeps_def by blast
    qed
  qed
qed

lemma keeps_rep [simp]: "keeps a \<Longrightarrow> keeps (rep a)"
  using keeps_rep_n unfolding keeps_def rep_def by blast

lemma keeps_grp [simp]: "keeps a \<Longrightarrow> keeps (grp j a)"
  unfolding keeps_def grp_def by auto

lemma keeps_bref [simp]: "keeps (bref k)"
proof -
  have "keeps (lit w)" for w by simp
  then show ?thesis unfolding keeps_def bref_def by (auto split: option.splits)
qed

lemma keeps_anchors [simp]: "keeps bol" "keeps bos" "keeps eos"
  by (auto simp: keeps_def bol_def bos_def eos_def split: if_splits)

lemma sets_grp_grp: "sets_grp k (grp k a)"
  by (auto simp: sets_grp_def grp_def)

lemma sets_grp_here: "sets_grp k m \<Longrightarrow> keeps (seqs ms) \<Longrightarrow> sets_grp k (seqs (m # ms))"
  unfolding sets_grp_def keeps_def in_seqs_Cons by blast

lemma sets_grp_later: "sets_grp k (seqs ms) \<Longrightarrow> sets_grp k (seqs (m # ms))"
  unfolding sets_grp_def in_seqs_Cons by blast

lemma sets_return_paren: "sets_grp 1 return_paren_re" "sets_grp 2 return_paren_re"
  unfolding return_paren_re_def
  by (rule sets_grp_later sets_grp_here sets_grp_grp | simp)+

lemma sets_return_inline: "sets_grp 1 return_inline_re" "sets_grp 2 return_inline_re"
  unfolding return_inline_re_def
  by (rule sets_grp_later sets_grp_here sets_grp_grp | simp)+

lemma sets_self_closing: "sets_grp 1 self_closing_re" "sets_grp 2 self_closing_re"
  unfolding self_closing_re_def
  by (rule sets_grp_later sets_grp_here sets_grp_grp | simp)+

lemma sets_element: "sets_grp 1 element_re" "sets_grp 2 element_re" "sets_grp 3 element_re"
  unfolding element_re_def
  by (rule sets_grp_later sets_grp_here sets_grp_grp | simp)+

lemma keeps_attr_name_re [simp]: "keeps attr_name_re"
  by (simp add: attr_name_re_def)

lemma keeps_attr_value_re [simp]: "keeps attr_value_re"
  by (simp add: attr_value_re_def)

lemma sets_attr_pattern: "sets_grp 1 attr_pattern"
  unfolding attr_pattern_def
  by (rule sets_grp_later sets_grp_here sets_grp_grp | simp)+

lemma match_at_group:
  assumes "match_at pat pv cs = Some m" and "sets_grp k pat"
  shows "\<exists>v. group m k = Some v"
proof -
  let ?s = "\<lparr>prev = pv, rest = cs, caps = (\<lambda>k. None)\<rparr>"
  from assms(1) obtain s' ss where p: "pat ?s = s' # ss" and m: "group m = caps s'"
    by (auto simp: match_at_def Let_def split: list.splits)
  from p have "s' \<in> set (pat ?s)" by simp
  with assms(2) have "caps s' k \<noteq> None" unfolding sets_grp_def by blast
  with m show ?thesis by auto
qed

lemma finditer_match_at:
  "m \<in> set (finditer pat pv cs) \<Longrightarrow> \<exists>pv' cs'. match_at pat pv' cs' = Some m"
  by (induction pat pv cs rule: finditer.induct) (auto split: option.splits if_splits)

lemma attr_name_ok: "\<exists>r. attr_name (Some n) = Inr r"
  by (simp add: attr_name_def bnd_def py_in_def)

lemma attr_entry_ok: "group m 1 = Some n \<Longrightarrow> \<exists>r. attr_entry m = Inr r"
  using attr_name_ok [of n] by (auto simp: attr_entry_def bnd_def)

lemma attr_loop_ok:
  "(\<And>m. m \<in> set ms \<Longrightarrow> \<exists>r. attr_entry m = Inr r) \<Longrightarrow> \<exists>r. attr_loop acc ms = Inr r"
proof (induction ms arbitrary: acc)
  case Nil
  then show ?case by simp
next
  case (Cons m ms)
  from Cons.prems [of m] obtain e where e: "attr_entry m = Inr e" by auto
  from Cons.IH [of "acc @ [e]"] Cons.prems obtain r where "attr_loop (acc @ [e]) ms = Inr r"
    by auto
  with e show ?case by (simp add: bnd_def)
qed

lemma parse_attributes_ok: "\<exists>r. parse_attributes a = Inr r"
proof -
  have "\<exists>r. attr_entry m = Inr r" if "m \<in> set (finditer attr_pattern None a)" for m
  proof -
    from that obtain pv' cs' where "match_at attr_pattern pv' cs' = Some m"
      using finditer_match_at by blast
    then obtain n where "group m 1 = Some n"
      using match_at_group sets_attr_pattern by blast
    then show ?thesis by (rule attr_entry_ok)
  qed
  then obtain r where "attr_loop [] (finditer attr_pattern None a) = Inr r"
    using attr_loop_ok by blast
  then show ?thesis by (simp add: parse_attributes_def bnd_def)
qed

lemma self_closing_groups:
  assumes "re_match self_closing_re s = Some m"
  shows "\<exists>tag attrs. group m 1 = Some tag \<and> group m 2 = Some attrs"
  using assms match_at_group sets_self_closing unfolding re_match_def by blast

lemma element_groups:
  assumes "re_match element_re s = Some m"
  shows "\<exists>tag attrs children. group m 1 = Some tag \<and> group m 2 = Some attrs \<and> group m 3 = Some children"
proof -
  from assms have m: "match_at element_re None s = Some m" by (simp add: re_match_def)
  from match_at_group [OF m sets_element(1)] match_at_group [OF m sets_element(2)]
    match_at_group [OF m sets_element(3)]
  show ?thesis by blast
qed

lemma convert_self_closing_gen:
  assumes "re_match self_closing_re (strip jsx) = Some m"
  shows "\<exists>tag attrs props. group m 1 = Some tag \<and> group m 2 = Some attrs
           \<and> parse_attributes attrs = Inr props
           \<and> convert_jsx_element jsx indent
               = Inr (''React.createElement('' @ [sq] @ tag @ [sq] @ '', '' @ props @ '')'')"
proof -
  from self_closing_groups [OF assms] obtain tag attrs
    where g: "group m 1 = Some tag" "group m 2 = Some attrs" by blast
  obtain props where p: "parse_attributes attrs = Inr props"
    using parse_attributes_ok by blast
  from assms g p have "convert_jsx_element jsx indent
      = Inr (''React.createElement('' @ [sq] @ tag @ [sq] @ '', '' @ props @ '')'')"
    by (simp add: convert_jsx_element_def parse_attributes_of_def bnd_def call2_def fmt_def)
  with g p show ?thesis by blast
qed

lemma convert_jsx_element_ok: "\<exists>r. convert_jsx_element jsx indent = Inr r"
proof (cases "re_match self_closing_re (strip jsx)")
  case (Some m)
  then show ?thesis using convert_self_closing_gen by blast
next
  case None
  show ?thesis
  proof (cases "re_match element_re (strip jsx)")
    case n: None
    with None show ?thesis by (simp add: convert_jsx_element_def)
  next
    case (Some m)
    from element_groups [OF Some] obtain tag attrs children
      where g: "group m 1 = Some tag" "group m 2 = Some attrs" "group m 3 = Some children"
      by blast
    obtain props where p: "parse_attributes attrs = Inr props"
      using parse_attributes_ok by blast
    from None Some g p show ?thesis
      by (simp add: convert_jsx_element_def parse_attributes_of_def bnd_def py_strip_def Let_def)
  qed
qed

lemma convert_return_jsx_ok:
  assumes "group m 1 = Some i" and "group m 2 = Some j"
  shows "\<exists>r. convert_return_jsx u m = Inr r"
proof -
  obtain r where "convert_jsx_element (strip j) (i @ ''  '') = Inr r"
    using convert_jsx_element_ok by blast
  with assms show ?thesis
    by (simp add: convert_return_jsx_def bnd_def py_strip_def py_add_def Let_def)
qed

lemma re_sub_ok:
  assumes "\<And>st pv cs m. match_at pat pv cs = Some m \<Longrightarrow> \<exists>r. f st m = Inr r"
  shows "\<exists>r. re_sub pat f st pv cs = Inr r"
  using assms
proof (induction pat f st pv cs rule: re_sub.induct)
  case (1 pat f st pv)
  then show ?case by (auto split: option.splits)
next
  case (2 pat f st pv c cs)
  show ?case
  proof (cases "match_at pat pv (c # cs)")
    case None
    with "2.IH"(1) "2.prems" obtain r where "re_sub pat f st (Some c) cs = Inr r" by blast
    with None show ?thesis by (cases r) (simp add: bnd_def)
  next
    case (Some m)
    with "2.prems" obtain r st1 where f: "f st m = Inr (r, st1)" by fastforce
    show ?thesis
    proof (cases "length (end_rest m) < length (c # cs)")
      case True
      with "2.IH"(2) [OF Some True] "2.prems" f
      obtain q where "re_sub pat f st1 (end_prev m) (end_rest m) = Inr q" by blast
      with Some f True show ?thesis by (cases q) (simp add: bnd_def)
    next
      case False
      with "2.IH"(3) [OF Some False] "2.prems" f
      obtain q where "re_sub pat f st1 (Some c) cs = Inr q" by blast
      with Some f False show ?thesis by (cases q) (simp add: bnd_def)
    qed
  qed
qed



section \<open>No call raises\<close>

lemma protect_ok: "\<exists>r. protect content = Inr r"
  unfolding protect_def by (rule re_sub_ok) (simp add: protect_expression_def)

lemma re_sub_return_ok:
  assumes "sets_grp 1 pat" and "sets_grp 2 pat"
  shows "\<exists>r. re_sub pat convert_return_jsx u pv cs = Inr r"
proof (rule re_sub_ok)
  fix st pv cs m
  assume m: "match_at pat pv cs = Some m"
  from match_at_group [OF m assms(1)] match_at_group [OF m assms(2)]
  show "\<exists>r. convert_return_jsx st m = Inr r"
    using convert_return_jsx_ok by blast
qed

lemma pipeline_ok: "\<exists>r. convert_jsx_to_createElement content = Inr r"
proof -
  obtain c1 pe where 1: "protect content = Inr (c1, pe)"
    using protect_ok by fastforce
  obtain c2 where 2: "re_sub return_paren_re convert_return_jsx () None c1 = Inr (c2, ())"
    using re_sub_return_ok [OF sets_return_paren] by fastforce
  obtain c3 where 3: "re_sub return_inline_re convert_return_jsx () None c2 = Inr (c3, ())"
    using re_sub_return_ok [OF sets_return_inline] by fastforce
  from 1 2 3 show ?thesis
    by (simp add: convert_jsx_to_createElement_def bnd_def)
qed

lemma strip_idem: "strip (strip s) = strip s"
proof -
  define a where "a = dropWhile is_space s"
  define b where "b = rev (dropWhile is_space (rev a))"
  have sb: "strip s = b" by (simp add: strip_def a_def b_def)
  have ab: "a = b @ rev (takeWhile is_space (rev a))"
    unfolding b_def by (metis rev_append rev_rev_ident takeWhile_dropWhile_id)
  have 1: "dropWhile is_space b = b"
  proof (cases b)
    case Nil
    then show ?thesis by simp
  next
    case (Cons x xs)
    with ab obtain ys where "a = x # ys" by simp
    then have "a \<noteq> []" and "hd a = x" by simp_all
    then have "\<not> is_space x" unfolding a_def using hd_dropWhile by metis
    with Cons show ?thesis by simp
  qed
  have 2: "dropWhile is_space (rev b) = rev b"
    by (simp add: b_def)
  show ?thesis unfolding sb by (simp add: strip_def 1 2)
qed

lemma convert_element_gen:
  assumes "re_match self_closing_re (strip jsx) = None"
    and "re_match element_re (strip jsx) = Some m"
  shows "\<exists>tag attrs children props. group m 1 = Some tag \<and> group m 2 = Some attrs
           \<and> group m 3 = Some children \<and> parse_attributes attrs = Inr props
           \<and> convert_jsx_element jsx indent
               = (if strip children = []
                  then Inr (''React.createElement('' @ [sq] @ tag @ [sq] @ '', '' @ props @ '')'')
                  else Inr (''React.createElement('' @ [NL] @ indent @ ''  '' @ [sq] @ tag @ [sq] @ '','' @ [NL]
                            @ indent @ ''  '' @ props @ '','' @ [NL]
                            @ indent @ ''  '' @ [sq] @ strip children @ [sq] @ [NL]
                            @ indent @ '')''))"
proof -
  from element_groups [OF assms(2)] obtain tag attrs children
    where g: "group m 1 = Some tag" "group m 2 = Some attrs" "group m 3 = Some children"
    by blast
  obtain props where p: "parse_attributes attrs = Inr props"
    using parse_attributes_ok by blast
  have c: "convert_children (strip children) i = [sq] @ strip children @ [sq]" for i
    by (simp add: convert_children_def strip_idem)
  from assms g p have "convert_jsx_element jsx indent
               = (if strip children = []
                  then Inr (''React.createElement('' @ [sq] @ tag @ [sq] @ '', '' @ props @ '')'')
                  else Inr (''React.createElement('' @ [NL] @ indent @ ''  '' @ [sq] @ tag @ [sq] @ '','' @ [NL]
                            @ indent @ ''  '' @ props @ '','' @ [NL]
                            @ indent @ ''  '' @ [sq] @ strip children @ [sq] @ [NL]
                            @ indent @ '')''))"
    by (simp add: convert_jsx_element_def parse_attributes_of_def bnd_def py_strip_def Let_def
        call2_def call3_def fmt_def c)
  with g p show ?thesis by blast
qed

section \<open>The first match of the attribute pattern\<close>

lemma star_run_hd: "\<exists>pv' tl. star_run p pv cs = (pv', dropWhile p cs) # tl"
  by (induction cs arbitrary: pv) (auto, metis append_Cons)

lemma star_hd: "\<exists>pv' tl. star p s = s\<lparr>prev := pv', rest := dropWhile p (rest s)\<rparr> # tl"
  using star_run_hd [of p "prev s" "rest s"] by (auto simp: star_def)

lemma star_run_len: "(pv', r) \<in> set (star_run p pv cs) \<Longrightarrow> length r \<le> length cs"
  by (induction cs arbitrary: pv) (auto split: if_splits, fastforce)

lemma star_len: "s' \<in> set (star p s) \<Longrightarrow> length (rest s') \<le> length (rest s)"
  using star_run_len by (auto simp: star_def)

lemma plus_Nil: "rest s = [] \<Longrightarrow> plus p s = []"
  by (simp add: plus_def seq_def one_def)

lemma plus_no: "rest s = c # cs \<Longrightarrow> \<not> p c \<Longrightarrow> plus p s = []"
  by (simp add: plus_def seq_def one_def)

lemma plus_hd:
  "rest s = c # cs \<Longrightarrow> p c \<Longrightarrow> \<exists>pv' tl. plus p s = s\<lparr>prev := pv', rest := dropWhile p cs\<rparr> # tl"
  using star_hd [of p "s\<lparr>prev := Some c, rest := cs\<rparr>"]
  by (auto simp: plus_def seq_def one_def)

lemma plus_len:
  assumes "s' \<in> set (plus p s)"
  shows "length (rest s') < length (rest s)"
proof (cases "rest s")
  case Nil
  with assms show ?thesis by (simp add: plus_Nil)
next
  case (Cons c cs)
  with assms have "s' \<in> set (star p (s\<lparr>prev := Some c, rest := cs\<rparr>))"
    by (auto simp: plus_def seq_def one_def split: if_splits)
  from star_len [OF this] Cons show ?thesis by simp
qed

text \<open>One round \<open>-\w+\<close>.\<close>

lemma round_no:
  "\<not> (\<exists>d cs. rest s = CHR ''-'' # d # cs \<and> is_word d)
     \<Longrightarrow> seqs [chr CHR ''-'', plus is_word] s = []"
  apply (cases "rest s")
   apply (simp add: seqs_def seq_def chr_def one_def)
  subgoal for c cs
    apply (cases cs)
     apply (simp add: seqs_def seq_def chr_def one_def plus_Nil)
    apply (auto simp add: seqs_def seq_def chr_def one_def plus_no eps_def)
    done
  done

lemma round_hd:
  assumes "rest s = CHR ''-'' # d # cs" and "is_word d"
  shows "\<exists>pv' tl. seqs [chr CHR ''-'', plus is_word] s
           = s\<lparr>prev := pv', rest := dropWhile is_word cs\<rparr> # tl"
proof -
  let ?s1 = "s\<lparr>prev := Some CHR ''-'', rest := d # cs\<rparr>"
  have "rest ?s1 = d # cs" by simp
  from plus_hd [where p = is_word, OF this assms(2)] obtain pv' tl
    where "plus is_word ?s1 = ?s1\<lparr>prev := pv', rest := dropWhile is_word cs\<rparr> # tl" by blast
  with assms(1) show ?thesis
    by (simp add: seqs_def seq_def chr_def one_def eps_def) blast
qed

lemma round_len:
  assumes "s' \<in> set (seqs [chr CHR ''-'', plus is_word] s)"
  shows "length (rest s') < length (rest s)"
proof -
  from assms obtain s1 where 1: "s1 \<in> set (chr CHR ''-'' s)" and 2: "s' \<in> set (plus is_word s1)"
    by (auto simp: seqs_def seq_def eps_def)
  from 1 have "length (rest s1) < length (rest s)"
    by (cases "rest s") (auto simp: chr_def one_def split: if_splits)
  with plus_len [OF 2] show ?thesis by simp
qed

lemma rep_n_hd:
  "length (rest s) \<le> n \<Longrightarrow>
     \<exists>pv' tl. rep_n n (seqs [chr CHR ''-'', plus is_word]) s
        = s\<lparr>prev := pv', rest := name_tail (rest s)\<rparr> # tl"
proof (induction n arbitrary: s)
  case 0
  then show ?case by (cases s) auto
next
  case (Suc n)
  let ?X = "seqs [chr CHR ''-'', plus is_word]"
  show ?case
  proof (cases "\<exists>d cs. rest s = CHR ''-'' # d # cs \<and> is_word d")
    case False
    then have x: "?X s = []" by (rule round_no)
    from False have "name_tail (rest s) = rest s"
      by (cases "rest s" rule: name_tail.cases) auto
    with x show ?thesis by (cases s) auto
  next
    case True
    then obtain d cs where r: "rest s = CHR ''-'' # d # cs" and d: "is_word d" by blast
    from round_hd [OF r d] obtain pv1 tl1
      where x: "?X s = s\<lparr>prev := pv1, rest := dropWhile is_word cs\<rparr> # tl1" by blast
    let ?s1 = "s\<lparr>prev := pv1, rest := dropWhile is_word cs\<rparr>"
    have all: "filter (\<lambda>s'. length (rest s') < length (rest s)) (?X s) = ?X s"
      using round_len by (simp add: filter_id_conv)
    have "length (rest ?s1) \<le> n"
    proof -
      have "?s1 \<in> set (?X s)" using x by simp
      from round_len [OF this] Suc.prems show ?thesis by simp
    qed
    from Suc.IH [OF this] obtain pv2 tl2
      where "rep_n n ?X ?s1 = ?s1\<lparr>prev := pv2, rest := name_tail (rest ?s1)\<rparr> # tl2" by blast
    moreover have "name_tail (rest s) = name_tail (dropWhile is_word cs)"
      using r d by simp
    ultimately show ?thesis using x all by simp blast
  qed
qed

lemma attr_name_re_no:
  "\<not> (\<exists>c cs. rest s = c # cs \<and> is_word c) \<Longrightarrow> attr_name_re s = []"
  by (cases "rest s") (auto simp: attr_name_re_def seqs_def seq_def plus_Nil plus_no)

lemma attr_name_re_hd:
  assumes "rest s = c # cs" and "is_word c"
  shows "\<exists>pv' tl. attr_name_re s
           = s\<lparr>prev := pv', rest := name_tail (dropWhile is_word cs)\<rparr> # tl"
proof -
  let ?X = "seqs [chr CHR ''-'', plus is_word]"
  from plus_hd [where p = is_word, OF assms] obtain pv1 tl1
    where p: "plus is_word s = s\<lparr>prev := pv1, rest := dropWhile is_word cs\<rparr> # tl1" by blast
  let ?s1 = "s\<lparr>prev := pv1, rest := dropWhile is_word cs\<rparr>"
  from rep_n_hd [of ?s1 "length (rest ?s1)"] obtain pv2 tl2
    where "rep ?X ?s1 = ?s1\<lparr>prev := pv2, rest := name_tail (rest ?s1)\<rparr> # tl2"
    unfolding rep_def by blast
  with p show ?thesis
    by (simp add: attr_name_re_def seqs_def seq_def eps_def) blast
qed


lemma is_word_not_special:
  "is_word c \<Longrightarrow> \<not> is_space c \<and> c \<noteq> CHR ''='' \<and> c \<noteq> CHR ''-''"
  by (auto simp: is_word_def is_space_def Let_def)

lemma dropWhile_word_append:
  assumes "t = [] \<or> \<not> is_word (hd t)"
  shows "dropWhile is_word (cs @ t) = dropWhile is_word cs @ t"
proof (cases "\<forall>x\<in>set cs. is_word x")
  case True
  with assms show ?thesis by (cases t) (auto simp: dropWhile_append2)
next
  case False
  then show ?thesis by (auto simp: dropWhile_append1)
qed

lemma name_tail_append:
  assumes "t = [] \<or> (\<not> is_word (hd t) \<and> hd t \<noteq> CHR ''-'')"
  shows "name_tail u = [] \<Longrightarrow> name_tail (u @ t) = t"
proof (induction u rule: name_tail.induct)
  case 1
  from assms show ?case by (cases t rule: name_tail.cases) auto
next
  case (2 c)
  then show ?case by simp
next
  case (3 c d cs)
  from "3.prems" have cd: "c = CHR ''-'' \<and> is_word d"
    by (auto split: if_splits)
  with "3.prems" have e: "name_tail (dropWhile is_word cs) = []" by simp
  from assms have "t = [] \<or> \<not> is_word (hd t)" by blast
  then have "dropWhile is_word (cs @ t) = dropWhile is_word cs @ t"
    by (rule dropWhile_word_append)
  with "3.IH" [OF cd e] cd show ?case by simp
qed

lemma is_name_iff:
  "is_name nm \<longleftrightarrow> (\<exists>c cs. nm = c # cs \<and> is_word c \<and> name_tail (dropWhile is_word cs) = [])"
proof (cases "\<exists>c cs. nm = c # cs \<and> is_word c")
  case False
  let ?s = "\<lparr>prev = None, rest = nm, caps = (\<lambda>k. None)\<rparr>"
  from False have "attr_name_re ?s = []" by (intro attr_name_re_no) simp
  with False show ?thesis by (auto simp: is_name_def re_match_def match_at_def)
next
  case True
  then obtain c cs where n: "nm = c # cs" "is_word c" by blast
  let ?s = "\<lparr>prev = None, rest = nm, caps = (\<lambda>k. None)\<rparr>"
  from n have "rest ?s = c # cs" by simp
  from attr_name_re_hd [OF this n(2)] obtain pv' tl
    where "attr_name_re ?s = ?s\<lparr>prev := pv', rest := name_tail (dropWhile is_word cs)\<rparr> # tl"
    by blast
  with n show ?thesis by (auto simp: is_name_def re_match_def match_at_def)
qed

text \<open>The name at the start of a text that goes on with a character the name cannot take.\<close>

lemma grp_name_hd:
  assumes "is_name nm" and "rest s = nm @ t"
    and "t = [] \<or> (\<not> is_word (hd t) \<and> hd t \<noteq> CHR ''-'')"
  shows "\<exists>pv' tl. grp 1 attr_name_re s
           = s\<lparr>prev := pv', rest := t, caps := (caps s)(1 \<mapsto> nm)\<rparr> # tl"
proof -
  from assms(1) obtain c cs where n: "nm = c # cs" "is_word c"
    and e: "name_tail (dropWhile is_word cs) = []"
    unfolding is_name_iff by blast
  from assms(3) have "t = [] \<or> \<not> is_word (hd t)" by blast
  from dropWhile_word_append [OF this]
  have "name_tail (dropWhile is_word (cs @ t)) = name_tail (dropWhile is_word cs @ t)" by simp
  also have "\<dots> = t" using name_tail_append [OF assms(3) e] .
  finally have nt: "name_tail (dropWhile is_word (cs @ t)) = t" .
  from assms(2) n have "rest s = c # (cs @ t)" by simp
  from attr_name_re_hd [OF this n(2)] nt obtain pv' tl
    where "attr_name_re s = s\<lparr>prev := pv', rest := t\<rparr> # tl" by auto
  with assms(2) show ?thesis
    by (simp add: grp_def consumed_def) blast
qed

lemma concat_map_eps: "concat (map eps xs) = xs"
  by (induction xs) (simp_all add: eps_def)

lemma seq_eps: "seq a eps = a"
  by (rule ext) (simp add: seq_def concat_map_eps)

lemma opt_apply: "opt a s = a s @ [s]"
  by (simp add: opt_def alt_def eps_def)

lemma attr_pattern_unfold:
  "attr_pattern s = concat (map (\<lambda>s1. attr_value_re s1 @ [s1]) (grp 1 attr_name_re s))"
proof -
  have e: "attr_pattern = seq (grp 1 attr_name_re) (opt attr_value_re)"
    by (simp add: attr_pattern_def seqs_def seq_eps)
  have o: "opt attr_value_re = (\<lambda>s1. attr_value_re s1 @ [s1])"
    by (rule ext) (rule opt_apply)
  show ?thesis unfolding e o by (rule seq_def)
qed

lemma attr_match_gen:
  assumes "is_name nm"
    and "t = [] \<or> (\<not> is_word (hd t) \<and> hd t \<noteq> CHR ''-'')"
    and v: "\<And>s1. rest s1 = t \<Longrightarrow> caps s1 = (\<lambda>k. None)(1 \<mapsto> nm) \<Longrightarrow>
         \<exists>s2 tl. attr_value_re s1 @ [s1] = s2 # tl
           \<and> rest s2 = r \<and> prev s2 = e \<and> caps s2 1 = Some nm
           \<and> \<not> truthy (caps s2 2) \<and> \<not> truthy (caps s2 3) \<and> \<not> truthy (caps s2 4)
           \<and> length t = length w + length r \<and> take (length w) t = w"
  shows "\<exists>m. match_at attr_pattern pv (nm @ t) = Some m \<and> group0 m = nm @ w
           \<and> group m 1 = Some nm \<and> \<not> truthy (group m 2) \<and> \<not> truthy (group m 3)
           \<and> \<not> truthy (group m 4) \<and> end_rest m = r \<and> end_prev m = e"
proof -
  let ?s = "\<lparr>prev = pv, rest = nm @ t, caps = (\<lambda>k. None)\<rparr>"
  have "rest ?s = nm @ t" by simp
  from grp_name_hd [OF assms(1) this assms(2)] obtain pv' tl
    where g: "grp 1 attr_name_re ?s = ?s\<lparr>prev := pv', rest := t, caps := (caps ?s)(1 \<mapsto> nm)\<rparr> # tl"
    by blast
  let ?s1 = "?s\<lparr>prev := pv', rest := t, caps := (caps ?s)(1 \<mapsto> nm)\<rparr>"
  from v [of ?s1] obtain s2 tl2 where
    h: "attr_value_re ?s1 @ [?s1] = s2 # tl2"
    and p: "rest s2 = r" "prev s2 = e" "caps s2 1 = Some nm"
           "\<not> truthy (caps s2 2)" "\<not> truthy (caps s2 3)" "\<not> truthy (caps s2 4)"
           "length t = length w + length r" "take (length w) t = w"
    by auto
  from g h have "\<exists>tl. attr_pattern ?s = s2 # tl"
    unfolding attr_pattern_unfold by simp
  with p show ?thesis
    by (auto simp: match_at_def consumed_def)
qed

lemma attr_match_dq:
  assumes "is_name nm"
  shows \<open>\<exists>m. match_at attr_pattern pv (nm @ ''=""'' @ r) = Some m \<and> group0 m = nm @ ''=""''
           \<and> group m 1 = Some nm \<and> \<not> truthy (group m 2) \<and> \<not> truthy (group m 3)
           \<and> \<not> truthy (group m 4) \<and> end_rest m = r \<and> end_prev m = Some dq\<close>
proof (rule attr_match_gen [OF assms])
  show \<open>''=""'' @ r = [] \<or> \<not> is_word (hd (''=""'' @ r)) \<and> hd (''=""'' @ r) \<noteq> CHR ''-''\<close>
    by (simp add: is_word_def)
next
  fix s1 :: mstate
  assume \<open>rest s1 = ''=""'' @ r\<close> and "caps s1 = (\<lambda>k. None)(1 \<mapsto> nm)"
  then show \<open>\<exists>s2 tl. attr_value_re s1 @ [s1] = s2 # tl
           \<and> rest s2 = r \<and> prev s2 = Some dq \<and> caps s2 1 = Some nm
           \<and> \<not> truthy (caps s2 2) \<and> \<not> truthy (caps s2 3) \<and> \<not> truthy (caps s2 4)
           \<and> length (''=""'' @ r) = length ''=""'' + length r
           \<and> take (length ''=""'') (''=""'' @ r) = ''=""''\<close>
    by (simp add: attr_value_re_def seqs_def seq_def chr_def one_def alt_def eps_def grp_def star_def
        not_char_def dq_def sq_def consumed_def truthy_def)
qed


lemma attr_match_sq:
  assumes "is_name nm"
  shows \<open>\<exists>m. match_at attr_pattern pv (nm @ [CHR ''='', sq, sq] @ r) = Some m \<and> group0 m = nm @ [CHR ''='', sq, sq]
           \<and> group m 1 = Some nm \<and> \<not> truthy (group m 2) \<and> \<not> truthy (group m 3)
           \<and> \<not> truthy (group m 4) \<and> end_rest m = r \<and> end_prev m = Some sq\<close>
proof (rule attr_match_gen [OF assms])
  show \<open>[CHR ''='', sq, sq] @ r = [] \<or> \<not> is_word (hd ([CHR ''='', sq, sq] @ r)) \<and> hd ([CHR ''='', sq, sq] @ r) \<noteq> CHR ''-''\<close>
    by (simp add: is_word_def)
next
  fix s1 :: mstate
  assume \<open>rest s1 = [CHR ''='', sq, sq] @ r\<close> and "caps s1 = (\<lambda>k. None)(1 \<mapsto> nm)"
  then show \<open>\<exists>s2 tl. attr_value_re s1 @ [s1] = s2 # tl
           \<and> rest s2 = r \<and> prev s2 = Some sq \<and> caps s2 1 = Some nm
           \<and> \<not> truthy (caps s2 2) \<and> \<not> truthy (caps s2 3) \<and> \<not> truthy (caps s2 4)
           \<and> length ([CHR ''='', sq, sq] @ r) = length [CHR ''='', sq, sq] + length r
           \<and> take (length [CHR ''='', sq, sq]) ([CHR ''='', sq, sq] @ r) = [CHR ''='', sq, sq]\<close>
    by (simp add: attr_value_re_def seqs_def seq_def chr_def one_def alt_def eps_def grp_def star_def
        not_char_def dq_def sq_def consumed_def truthy_def)
qed

lemma attr_match_brace:
  assumes "is_name nm"
  shows \<open>\<exists>m. match_at attr_pattern pv (nm @ ''={}'' @ r) = Some m \<and> group0 m = nm @ ''={}''
           \<and> group m 1 = Some nm \<and> \<not> truthy (group m 2) \<and> \<not> truthy (group m 3)
           \<and> \<not> truthy (group m 4) \<and> end_rest m = r \<and> end_prev m = Some CHR ''}''\<close>
proof (rule attr_match_gen [OF assms])
  show \<open>''={}'' @ r = [] \<or> \<not> is_word (hd (''={}'' @ r)) \<and> hd (''={}'' @ r) \<noteq> CHR ''-''\<close>
    by (simp add: is_word_def)
next
  fix s1 :: mstate
  assume \<open>rest s1 = ''={}'' @ r\<close> and "caps s1 = (\<lambda>k. None)(1 \<mapsto> nm)"
  then show \<open>\<exists>s2 tl. attr_value_re s1 @ [s1] = s2 # tl
           \<and> rest s2 = r \<and> prev s2 = Some CHR ''}'' \<and> caps s2 1 = Some nm
           \<and> \<not> truthy (caps s2 2) \<and> \<not> truthy (caps s2 3) \<and> \<not> truthy (caps s2 4)
           \<and> length (''={}'' @ r) = length ''={}'' + length r
           \<and> take (length ''={}'') (''={}'' @ r) = ''={}''\<close>
    by (simp add: attr_value_re_def seqs_def seq_def chr_def one_def alt_def eps_def grp_def star_def
        not_char_def dq_def sq_def consumed_def truthy_def)
qed

lemma attr_match_bare:
  assumes "is_name nm"
  shows "\<exists>m. match_at attr_pattern pv nm = Some m \<and> group0 m = nm
           \<and> group m 1 = Some nm \<and> \<not> truthy (group m 2) \<and> \<not> truthy (group m 3)
           \<and> \<not> truthy (group m 4) \<and> end_rest m = []"
proof -
  let ?s = "\<lparr>prev = pv, rest = nm, caps = (\<lambda>k. None)\<rparr>"
  have "rest ?s = nm @ []" by simp
  from grp_name_hd [OF assms this] obtain pv' tl
    where g: "grp 1 attr_name_re ?s = ?s\<lparr>prev := pv', rest := [], caps := (caps ?s)(1 \<mapsto> nm)\<rparr> # tl"
    by blast
  let ?s1 = "?s\<lparr>prev := pv', rest := [], caps := (caps ?s)(1 \<mapsto> nm)\<rparr>"
  have "attr_value_re ?s1 = []"
    by (simp add: attr_value_re_def seqs_def seq_def chr_def one_def)
  with g have "\<exists>tl. attr_pattern ?s = ?s1 # tl"
    unfolding attr_pattern_unfold by simp
  then show ?thesis
    by (auto simp: match_at_def consumed_def truthy_def)
qed

lemma match_at_attr_Nil: "match_at attr_pattern pv [] = None"
proof -
  have "attr_name_re \<lparr>prev = pv, rest = [], caps = (\<lambda>k. None)\<rparr> = []"
    by (rule attr_name_re_no) simp
  then show ?thesis
    unfolding match_at_def attr_pattern_unfold by (simp add: grp_def)
qed

lemma attr_entry_true:
  assumes "group m 1 = Some nm" and "\<not> truthy (group m 2)" and "\<not> truthy (group m 3)"
    and "\<not> truthy (group m 4)" and "attr_name (Some nm) = Inr key"
  shows "attr_entry m = Inr (key @ '': true'')"
  using assms by (simp add: attr_entry_def attr_value_def bnd_def)

lemma is_name_Cons: "is_name nm \<Longrightarrow> \<exists>c cs. nm = c # cs \<and> is_word c"
  unfolding is_name_iff by blast

lemma attr_loop_valued:
  assumes "is_name nm" and "attr_name (Some nm) = Inr key"
    and "match_at attr_pattern pv (nm @ v @ r) = Some m"
    and "group m 1 = Some nm" and "\<not> truthy (group m 2)" and "\<not> truthy (group m 3)"
    and "\<not> truthy (group m 4)" and "end_rest m = r" and "end_prev m = e" and "v \<noteq> []"
  shows "attr_loop acc (finditer attr_pattern pv (nm @ v @ r))
           = attr_loop (acc @ [key @ '': true'']) (finditer attr_pattern e r)"
proof -
  from is_name_Cons [OF assms(1)] obtain c cs where n: "nm = c # cs" by blast
  have "finditer attr_pattern pv (c # cs @ v @ r) = m # finditer attr_pattern e r"
    using assms(3,8,9,10) n by simp
  with n attr_entry_true [OF assms(4-7) assms(2)] show ?thesis
    by (simp add: bnd_def)
qed

lemma attr_loop_bare:
  assumes "is_name nm" and "attr_name (Some nm) = Inr key"
  shows "attr_loop acc (finditer attr_pattern pv nm) = Inr (acc @ [key @ '': true''])"
proof -
  from is_name_Cons [OF assms(1)] obtain c cs where n: "nm = c # cs" by blast
  from attr_match_bare [OF assms(1), of pv] obtain m
    where m: "match_at attr_pattern pv nm = Some m" "group m 1 = Some nm"
      "\<not> truthy (group m 2)" "\<not> truthy (group m 3)" "\<not> truthy (group m 4)" "end_rest m = []"
    by blast
  have "finditer attr_pattern pv (c # cs) = [m]"
    using m(1,6) n by (simp add: match_at_attr_Nil)
  with n attr_entry_true [OF m(2-5) assms(2)] show ?thesis
    by (simp add: bnd_def)
qed

lemma strip_Nil_iff: "strip s = [] \<longleftrightarrow> (\<forall>c\<in>set s. is_space c)"
proof
  assume "strip s = []"
  then have a: "\<forall>x\<in>set (dropWhile is_space s). is_space x"
    by (simp add: strip_def dropWhile_eq_Nil_conv)
  have "dropWhile is_space s = []"
  proof (rule ccontr)
    assume ne: "dropWhile is_space s \<noteq> []"
    then have "\<not> is_space (hd (dropWhile is_space s))" by (rule hd_dropWhile)
    moreover from ne have "hd (dropWhile is_space s) \<in> set (dropWhile is_space s)" by simp
    ultimately show False using a by blast
  qed
  then show "\<forall>c\<in>set s. is_space c" by (simp add: dropWhile_eq_Nil_conv)
next
  assume "\<forall>c\<in>set s. is_space c"
  then show "strip s = []"
    by (auto simp: strip_def dropWhile_eq_Nil_conv dest: set_dropWhileD)
qed

lemma strip_name_ne: "is_name nm \<Longrightarrow> strip (nm @ v) \<noteq> []"
proof -
  assume "is_name nm"
  from is_name_Cons [OF this] obtain c cs where "nm = c # cs" "is_word c" by blast
  then have "c \<in> set (nm @ v)" "\<not> is_space c" using is_word_not_special by auto
  then show ?thesis unfolding strip_Nil_iff by blast
qed

section \<open>Placeholders in the protected buffer\<close>

lemma split_cases:
  assumes "W @ Y = L @ us"
  obtains v where "W = L @ v" "us = v @ Y" | v where "L = W @ v"
  using assms by (auto simp: append_eq_append_conv2)

lemma boundary_core:
  assumes p: "prefix (A @ ''PROTECTED_'' @ d @ ''__'') (L @ Rr)"
    and A: "A = [] \<or> A = ''_'' \<or> A = ''__''"
    and clean: "\<not> sublist ''PROTECTED_'' L"
    and R: "Rr = [] \<or> prefix ''__'' Rr"
    and d: "d \<noteq> []" "hd d \<noteq> CHR ''_''"
  shows "L = [] \<and> A = ''__''"
proof -
  define W where "W = A @ ''PROTECTED_''"
  define Y where "Y = d @ ''__''"
  have cl: "\<not> prefix W (L @ x)" if "length W \<le> length L" for x
  proof
    assume "prefix W (L @ x)"
    with that have "prefix W L"
      using prefix_length_prefix [of W "L @ x" L] by simp
    then obtain z where "L = A @ ''PROTECTED_'' @ z" by (auto simp: prefix_def W_def)
    then have "sublist ''PROTECTED_'' L" unfolding sublist_def by blast
    with clean show False by simp
  qed
  from p have "prefix (W @ Y) L \<or> (\<exists>us. W @ Y = L @ us \<and> prefix us Rr)"
    by (simp add: prefix_append W_def Y_def)
  then show ?thesis
  proof
    assume "prefix (W @ Y) L"
    then have "prefix W (L @ [])" and "length W \<le> length L"
      by (auto simp: prefix_def)
    with cl show ?thesis by blast
  next
    assume "\<exists>us. W @ Y = L @ us \<and> prefix us Rr"
    then obtain us where e: "W @ Y = L @ us" and u: "prefix us Rr"
      by auto
    from e show ?thesis
    proof (cases rule: split_cases)
      case (2 v)
      then have "prefix W (L @ [])" and "length W \<le> length L" by auto
      with cl show ?thesis by blast
    next
      case (1 v)
      from d obtain dh dt where dd: "d = dh # dt" "dh \<noteq> CHR ''_''" by (cases d) auto
      have "us \<noteq> []" using 1(2) dd by (simp add: Y_def)
      with u R obtain Z where Rr: "Rr = CHR ''_'' # CHR ''_'' # Z"
        by (cases Rr; cases "tl Rr") (auto simp: prefix_def)
      from u Rr 1(2) dd have v2: "prefix (v @ dh # dt @ ''__'') (CHR ''_'' # CHR ''_'' # Z)"
        by (simp add: Y_def)
      from 1(1) have w: "A @ ''PROTECTED_'' = L @ v" by (simp add: W_def)
      from A w v2 dd(2) clean show ?thesis
        by (elim disjE) (auto simp: Cons_eq_append_conv)
    qed
  qed
qed


lemma digit_cases: "d < 10 \<Longrightarrow> d = 0 \<or> d = 1 \<or> d = 2 \<or> d = 3 \<or> d = 4 \<or> d = 5 \<or> d = 6
    \<or> d = 7 \<or> d = 8 \<or> d = (9::nat)"
  by arith

lemma digit_props:
  assumes "d < 10"
  shows "of_char (digit d) = 48 + d" and "digit d \<noteq> CHR ''_''"
  using digit_cases [OF assms] by (auto simp: digit_def)

lemma dval_str_nat: "dval (str_nat n) = n"
proof (induction n rule: str_nat.induct)
  case (1 n)
  show ?case
  proof (cases "n < 10")
    case True
    then show ?thesis
      by (subst str_nat.simps) (simp add: dval_def digit_props)
  next
    case False
    have m: "n mod 10 < 10" by simp
    from False "1.IH" have "dval (str_nat (n div 10)) = n div 10" by simp
    with False show ?thesis
      by (subst str_nat.simps) (simp add: dval_def digit_props(1) [OF m])
  qed
qed

lemma str_nat_inj: "str_nat i = str_nat j \<Longrightarrow> i = j"
  using dval_str_nat by metis

lemma str_nat_digits: "str_nat n \<noteq> [] \<and> CHR ''_'' \<notin> set (str_nat n)"
proof (induction n rule: str_nat.induct)
  case (1 n)
  show ?case
  proof (cases "n < 10")
    case True
    from digit_props(2) [OF this] have "CHR ''_'' \<noteq> digit n" by (rule not_sym)
    with True show ?thesis
      by (subst (1 2) str_nat.simps) simp
  next
    case False
    have m: "n mod 10 < 10" by simp
    from False "1.IH" have "CHR ''_'' \<notin> set (str_nat (n div 10))" by simp
    with False digit_props(2) [OF m] show ?thesis
      by (subst (1 2) str_nat.simps) auto
  qed
qed

lemma digits_prefix:
  "CHR ''_'' \<notin> set a \<Longrightarrow> CHR ''_'' \<notin> set b \<Longrightarrow> prefix (a @ CHR ''_'' # x) (b @ CHR ''_'' # y)
     \<Longrightarrow> a = b"
proof (induction a arbitrary: b)
  case Nil
  then show ?case by (cases b) auto
next
  case (Cons ah at)
  then show ?case by (cases b) auto
qed

lemma placeholder_prefix_inj:
  assumes "prefix (placeholder i) (placeholder j @ R)"
  shows "i = j"
proof -
  from assms have "prefix (str_nat i @ CHR ''_'' # ''_'') (str_nat j @ CHR ''_'' # (''_'' @ R))"
    by (simp add: placeholder_def)
  then have "str_nat i = str_nat j"
    using digits_prefix str_nat_digits by blast
  then show ?thesis by (rule str_nat_inj)
qed

lemma replace_absent:
  "old \<noteq> [] \<Longrightarrow> \<not> sublist old s \<Longrightarrow> replace old new s = s"
  by (induction s) (auto simp: sublist_Cons_right)

lemma replace_skip:
  assumes "old \<noteq> []"
    and "\<And>ps ss. pre = ps @ ss \<Longrightarrow> ss \<noteq> [] \<Longrightarrow> \<not> prefix old (ss @ X)"
  shows "replace old new (pre @ X) = pre @ replace old new X"
  using assms(2)
proof (induction pre)
  case Nil
  then show ?case by simp
next
  case (Cons c pre)
  have 1: "\<not> prefix old ((c # pre) @ X)"
    using Cons.prems [of "[]" "c # pre"] by simp
  have 2: "replace old new (pre @ X) = pre @ replace old new X"
  proof (rule Cons.IH)
    fix ps ss
    assume "pre = ps @ ss" and "ss \<noteq> []"
    then show "\<not> prefix old (ss @ X)"
      using Cons.prems [of "c # ps" ss] by simp
  qed
  from 1 2 assms(1) show ?case by simp
qed

lemma replace_here:
  "old \<noteq> [] \<Longrightarrow> replace old new (old @ X) = new @ replace old new X"
  by (cases old) auto

lemma placeholder_ne: "placeholder i \<noteq> []"
  by (simp add: placeholder_def)

lemma clean_parts:
  assumes "\<not> sublist w (x @ y)"
  shows "\<not> sublist w x" and "\<not> sublist w y"
  using assms by (auto simp: sublist_def) (metis append.assoc, metis append.assoc)


lemma lit_run_prefix: "prefix (lit_run ts) (flat ts)"
  by (induction ts rule: lit_run.induct) auto

lemma render_lit_run:
  "\<exists>Rr. render j ts = lit_run ts @ Rr \<and> (Rr = [] \<or> prefix ''__'' Rr)"
  by (induction ts rule: lit_run.induct) (auto simp: placeholder_def)

lemma lit_run_clean: "\<not> sublist w (flat ts) \<Longrightarrow> \<not> sublist w (lit_run ts)"
  using lit_run_prefix [of ts] by (auto simp: prefix_def dest: clean_parts)

lemma placeholder_shape:
  "placeholder i = ''__'' @ ''PROTECTED_'' @ str_nat i @ ''__''"
  by (simp add: placeholder_def)

lemma str_nat_ne: "str_nat i \<noteq> []"
  using str_nat_digits by blast

lemma str_nat_hd: "hd (str_nat i) \<noteq> CHR ''_''"
  using str_nat_digits [of i] hd_in_set [of "str_nat i"] by metis

lemma digits_no_prefix:
  "CHR ''_'' \<notin> set d \<Longrightarrow> d \<noteq> [] \<Longrightarrow> \<not> prefix (CHR ''_'' # X) (d @ W)"
  by (cases d) auto

lemma placeholder_at_run:
  assumes "prefix (placeholder i) (L @ Rr)" and "\<not> sublist ''PROTECTED_'' L"
    and "Rr = [] \<or> prefix ''__'' Rr"
  shows "L = []"
proof -
  from assms(1) have "prefix (''__'' @ ''PROTECTED_'' @ str_nat i @ ''__'') (L @ Rr)"
    by (simp only: placeholder_shape)
  from boundary_core [OF this _ assms(2,3) str_nat_ne str_nat_hd] show ?thesis by simp
qed

lemma placeholder_after_one:
  assumes "prefix (placeholder i) (CHR ''_'' # L @ Rr)" and "\<not> sublist ''PROTECTED_'' L"
    and "Rr = [] \<or> prefix ''__'' Rr"
  shows False
proof -
  from assms(1) have "prefix (''_'' @ ''PROTECTED_'' @ str_nat i @ ''__'') (L @ Rr)"
    by (simp add: placeholder_def)
  from boundary_core [OF this _ assms(2,3) str_nat_ne str_nat_hd] show ?thesis by simp
qed

lemma placeholder_after_two:
  assumes "prefix (placeholder i) (CHR ''_'' # CHR ''_'' # L @ Rr)"
    and "\<not> sublist ''PROTECTED_'' L" and "Rr = [] \<or> prefix ''__'' Rr"
  shows False
proof -
  from assms(1) have "prefix ([] @ ''PROTECTED_'' @ str_nat i @ ''__'') (L @ Rr)"
    by (simp add: placeholder_def)
  from boundary_core [OF this _ assms(2,3) str_nat_ne str_nat_hd] show ?thesis by simp
qed

lemma digits_skip:
  "CHR ''_'' \<notin> set d \<Longrightarrow> sublist (CHR ''_'' # X) (d @ W) \<longleftrightarrow> sublist (CHR ''_'' # X) W"
  by (induction d) (auto simp: sublist_Cons_right)

lemma hole_case:
  assumes "i \<noteq> j" and "\<not> sublist (placeholder i) R"
    and "\<not> prefix (placeholder i) (CHR ''_'' # CHR ''_'' # R)"
    and "\<not> prefix (placeholder i) (CHR ''_'' # R)"
  shows "\<not> sublist (placeholder i) (placeholder j @ R)"
proof
  assume s: "sublist (placeholder i) (placeholder j @ R)"
  have nd: "CHR ''_'' \<notin> set (str_nat j)" using str_nat_digits by blast
  from assms(1) have ne: "\<not> prefix (placeholder i) (placeholder j @ R)"
    using placeholder_prefix_inj by blast
  have e: "placeholder j @ R = ''__PROTECTED_'' @ (str_nat j @ CHR ''_'' # CHR ''_'' # R)"
    by (simp add: placeholder_def)
  have pi: "placeholder i = CHR ''_'' # (''_PROTECTED_'' @ str_nat i @ ''__'')"
    by (simp add: placeholder_def)
  from s ne have "sublist (placeholder i) (str_nat j @ CHR ''_'' # CHR ''_'' # R)"
    unfolding e
    by (simp add: sublist_Cons_right pi digits_no_prefix [OF nd str_nat_ne])
  then have "sublist (placeholder i) (CHR ''_'' # CHR ''_'' # R)"
    unfolding pi using digits_skip [OF nd] by simp
  with assms(2,3,4) show False
    by (simp add: sublist_Cons_right)
qed

lemma render_absent:
  "i < j \<Longrightarrow> \<not> sublist ''PROTECTED_'' (flat ts) \<Longrightarrow> \<not> sublist (placeholder i) (render j ts)"
proof (induction ts arbitrary: j)
  case Nil
  then show ?case by (simp add: placeholder_def)
next
  case (Cons t ts)
  show ?case
  proof (cases t)
    case (Lit c)
    with Cons.prems have cl: "\<not> sublist ''PROTECTED_'' (flat ts)"
      using clean_parts(2) [of "''PROTECTED_''" "[c]" "flat ts"] by simp
    from Cons.IH [OF Cons.prems(1) cl] have 1: "\<not> sublist (placeholder i) (render j ts)" .
    from render_lit_run [of j "t # ts"] obtain Rr
      where r: "render j (t # ts) = lit_run (t # ts) @ Rr" "Rr = [] \<or> prefix ''__'' Rr" by blast
    have 2: "\<not> prefix (placeholder i) (render j (t # ts))"
    proof
      assume "prefix (placeholder i) (render j (t # ts))"
      with r have "prefix (placeholder i) (lit_run (t # ts) @ Rr)" by simp
      from placeholder_at_run [OF this lit_run_clean [OF Cons.prems(2)] r(2)] Lit show False by simp
    qed
    from 1 2 Lit show ?thesis by (simp add: sublist_Cons_right)
  next
    case (Hole e)
    with Cons.prems have cl: "\<not> sublist ''PROTECTED_'' (flat ts)"
      using clean_parts(2) [of "''PROTECTED_''" e "flat ts"] by simp
    from Cons.prems(1) have "i < Suc j" by simp
    from Cons.IH [OF this cl] have 1: "\<not> sublist (placeholder i) (render (Suc j) ts)" .
    from render_lit_run [of "Suc j" ts] obtain Rr
      where r: "render (Suc j) ts = lit_run ts @ Rr" "Rr = [] \<or> prefix ''__'' Rr" by blast
    have 2: "\<not> prefix (placeholder i) (CHR ''_'' # CHR ''_'' # render (Suc j) ts)"
      using placeholder_after_two [OF _ lit_run_clean [OF cl] r(2)] r(1) by auto
    have 3: "\<not> prefix (placeholder i) (CHR ''_'' # render (Suc j) ts)"
      using placeholder_after_one [OF _ lit_run_clean [OF cl] r(2)] r(1) by auto
    from Cons.prems(1) have "i \<noteq> j" by simp
    from hole_case [OF this 1 2 3] Hole show ?thesis by simp
  qed
qed

lemma restore_step:
  assumes "\<not> sublist ''PROTECTED_'' pre" and "\<not> sublist ''PROTECTED_'' (flat ts)"
  shows "replace (placeholder i) e (pre @ placeholder i @ render (Suc i) ts)
           = pre @ e @ render (Suc i) ts"
proof -
  let ?R = "render (Suc i) ts"
  have "replace (placeholder i) e (pre @ (placeholder i @ ?R))
          = pre @ replace (placeholder i) e (placeholder i @ ?R)"
  proof (rule replace_skip [OF placeholder_ne])
    fix ps ss
    assume p: "pre = ps @ ss" and ne: "ss \<noteq> []"
    with assms(1) have cl: "\<not> sublist ''PROTECTED_'' ss"
      using clean_parts(2) by blast
    have "prefix ''__'' (placeholder i @ ?R)" by (simp add: placeholder_def)
    then have "placeholder i @ ?R = [] \<or> prefix ''__'' (placeholder i @ ?R)" by blast
    from placeholder_at_run [OF _ cl this] ne show "\<not> prefix (placeholder i) (ss @ placeholder i @ ?R)"
      by blast
  qed
  also have "replace (placeholder i) e (placeholder i @ ?R) = e @ replace (placeholder i) e ?R"
    by (rule replace_here [OF placeholder_ne])
  also have "replace (placeholder i) e ?R = ?R"
    by (rule replace_absent [OF placeholder_ne render_absent [OF _ assms(2)]]) simp
  finally show ?thesis .
qed

lemma restore_render:
  "\<not> sublist ''PROTECTED_'' (pre @ flat ts)
     \<Longrightarrow> restore i (holes ts) (pre @ render i ts) = pre @ flat ts"
proof (induction ts arbitrary: pre i)
  case Nil
  then show ?case by simp
next
  case (Cons t ts)
  show ?case
  proof (cases t)
    case (Lit c)
    with Cons.prems have "\<not> sublist ''PROTECTED_'' ((pre @ [c]) @ flat ts)" by simp
    from Cons.IH [OF this, of i] Lit show ?thesis by simp
  next
    case (Hole e)
    with Cons.prems have a: "\<not> sublist ''PROTECTED_'' ((pre @ e) @ flat ts)" by simp
    from Hole Cons.prems have b: "\<not> sublist ''PROTECTED_'' pre"
      using clean_parts(1) by blast
    from a have c: "\<not> sublist ''PROTECTED_'' (flat ts)"
      using clean_parts(2) by blast
    from restore_step [OF b c, of i e] Cons.IH [OF a, of "Suc i"] Hole
    show ?thesis by simp
  qed
qed

lemma star_run_close:
  "concat (map (chr CHR ''}'') (map (\<lambda>(pv, r). s\<lparr>prev := pv, rest := r\<rparr>) (star_run not_brace pv cs)))
     = (case dropWhile not_brace cs of
          [] \<Rightarrow> []
        | d # r \<Rightarrow> if d = CHR ''}'' then [s\<lparr>prev := Some d, rest := r\<rparr>] else [])"
  by (induction cs arbitrary: pv) (auto simp: chr_def one_def not_brace_def)

lemma protect_re_apply:
  "protect_re s =
     (case rest s of
        [] \<Rightarrow> []
      | c # cs \<Rightarrow>
          if c = CHR ''{'' then
            (case dropWhile not_brace cs of
               [] \<Rightarrow> []
             | d # r \<Rightarrow> if d = CHR ''}'' then [s\<lparr>prev := Some d, rest := r\<rparr>] else [])
          else [])"
proof -
  have e: "protect_re = seq (chr CHR ''{'') (seq (star not_brace) (chr CHR ''}''))"
    by (simp add: protect_re_def seqs_def seq_eps)
  have i: "seq (star not_brace) (chr CHR ''}'')
      = (\<lambda>s1. concat (map (chr CHR ''}'') (star not_brace s1)))"
    by (rule ext) (rule seq_def)
  have "protect_re s = concat (map (\<lambda>s1. concat (map (chr CHR ''}'') (star not_brace s1)))
      (chr CHR ''{'' s))"
    unfolding e i by (rule seq_def)
  also have "\<dots> = (case rest s of
        [] \<Rightarrow> []
      | c # cs \<Rightarrow>
          if c = CHR ''{'' then
            (case dropWhile not_brace cs of
               [] \<Rightarrow> []
             | d # r \<Rightarrow> if d = CHR ''}'' then [s\<lparr>prev := Some d, rest := r\<rparr>] else [])
          else [])"
  proof (cases "rest s")
    case Nil
    then show ?thesis by (simp add: chr_def one_def)
  next
    case (Cons c cs)
    show ?thesis
    proof (cases "c = CHR ''{''")
      case False
      with Cons show ?thesis by (simp add: chr_def one_def)
    next
      case True
      let ?s1 = "s\<lparr>prev := Some c, rest := cs\<rparr>"
      from True Cons have "chr CHR ''{'' s = [?s1]" by (simp add: chr_def one_def)
      moreover have "concat (map (chr CHR ''}'') (star not_brace ?s1))
          = (case dropWhile not_brace cs of
               [] \<Rightarrow> []
             | d # r \<Rightarrow> if d = CHR ''}'' then [s\<lparr>prev := Some d, rest := r\<rparr>] else [])"
        using star_run_close [of ?s1 "Some c" cs]
        by (simp add: star_def del: dropWhile_eq_Nil_conv split: list.splits)
      ultimately show ?thesis using True Cons by (simp del: dropWhile_eq_Nil_conv)
    qed
  qed
  finally show ?thesis .
qed

lemma match_at_protect_Nil: "match_at protect_re pv [] = None"
  by (simp add: match_at_def protect_re_apply)

lemma match_at_protect_Cons:
  "match_at protect_re pv (c # cs) =
     (if c = CHR ''{'' then
        (case dropWhile not_brace cs of
           [] \<Rightarrow> None
         | d # r \<Rightarrow>
             if d = CHR ''}''
             then Some \<lparr>group0 = c # takeWhile not_brace cs @ [d], group = (\<lambda>k. None),
                         end_prev = Some d, end_rest = r\<rparr>
             else None)
      else None)"
proof -
  have "take (Suc (length cs) - length r) (c # cs) = c # takeWhile not_brace cs @ [d]"
    if "dropWhile not_brace cs = d # r" for d r
  proof -
    from that have "cs = takeWhile not_brace cs @ d # r"
      using takeWhile_dropWhile_id [of not_brace cs] by simp
    then have "length cs = length (takeWhile not_brace cs) + Suc (length r)"
      by (metis length_append length_Cons)
    then have l: "Suc (length cs) - length r = Suc (Suc (length (takeWhile not_brace cs)))"
      by simp
    have "take (Suc (length (takeWhile not_brace cs))) (takeWhile not_brace cs @ d # r)
        = takeWhile not_brace cs @ [d]"
      by simp
    with \<open>cs = takeWhile not_brace cs @ d # r\<close>
    have "take (Suc (length (takeWhile not_brace cs))) cs = takeWhile not_brace cs @ [d]"
      by simp
    with l show ?thesis by simp
  qed
  then show ?thesis
    by (auto simp add: match_at_def protect_re_apply consumed_def simp del: dropWhile_eq_Nil_conv
        split: list.splits)
qed

lemma protect_scan:
  "re_sub protect_re protect_expression st pv cs
     = Inr (render (length st) (tokens cs), st @ holes (tokens cs))"
proof (induction cs arbitrary: st pv rule: tokens.induct)
  case 1
  show ?case by (simp add: match_at_protect_Nil)
next
  case (2 c cs)
  show ?case
  proof (cases "match_at protect_re pv (c # cs)")
    case None
    have "tokens (c # cs) = Lit c # tokens cs
        \<and> re_sub protect_re protect_expression st (Some c) cs
            = Inr (render (length st) (tokens cs), st @ holes (tokens cs))"
    proof (cases "c = CHR ''{''")
      case False
      with "2.IH"(4) [OF False] show ?thesis by simp
    next
      case True
      show ?thesis
      proof (cases "dropWhile not_brace cs")
        case Nil
        with True "2.IH"(1) [OF True Nil] show ?thesis by (simp del: dropWhile_eq_Nil_conv)
      next
        case (Cons d r)
        with None True have "d \<noteq> CHR ''}''"
          by (auto simp: match_at_protect_Cons)
        with True Cons "2.IH"(3) [OF True Cons this] show ?thesis by simp
      qed
    qed
    with None show ?thesis by (simp add: bnd_def)
  next
    case (Some m)
    then obtain d r where c: "c = CHR ''{''" and dw: "dropWhile not_brace cs = d # r"
      and d: "d = CHR ''}''"
      and m: "m = \<lparr>group0 = c # takeWhile not_brace cs @ [d], group = (\<lambda>k. None),
                         end_prev = Some d, end_rest = r\<rparr>"
      by (auto simp: match_at_protect_Cons split: if_splits list.splits)
    from dw have len: "length r < length (c # cs)"
      using length_dropWhile_le [of not_brace cs] by simp
    from c dw d have t: "tokens (c # cs) = Hole (c # takeWhile not_brace cs @ [d]) # tokens r"
      by simp
    have "re_sub protect_re protect_expression (st @ [group0 m]) (Some d) r
        = Inr (render (length (st @ [group0 m])) (tokens r), (st @ [group0 m]) @ holes (tokens r))"
      using "2.IH"(2) [OF c dw d] .
    moreover have "protect_expression st m = Inr (placeholder (length st), st @ [group0 m])"
      by (simp add: protect_expression_def)
    ultimately show ?thesis using Some len t
      by (simp add: bnd_def m)
  qed
qed

lemma flat_tokens: "flat (tokens cs) = cs"
proof (induction cs rule: tokens.induct)
  case 1
  show ?case by simp
next
  case (2 c cs)
  show ?case
  proof (cases "c = CHR ''{'' \<and> (\<exists>r. dropWhile not_brace cs = CHR ''}'' # r)")
    case True
    then obtain r where c: "c = CHR ''{''" and dw: "dropWhile not_brace cs = CHR ''}'' # r"
      by blast
    from "2.IH"(2) [OF c dw] have "flat (tokens r) = r" by simp
    moreover have "takeWhile not_brace cs @ CHR ''}'' # r = cs"
      using takeWhile_dropWhile_id [of not_brace cs] dw by simp
    ultimately show ?thesis using c dw by simp
  next
    case False
    have "tokens (c # cs) = Lit c # tokens cs \<and> flat (tokens cs) = cs"
    proof (cases "c = CHR ''{''")
      case f: False
      with "2.IH"(4) [OF f] show ?thesis by simp
    next
      case True
      show ?thesis
      proof (cases "dropWhile not_brace cs")
        case Nil
        with True "2.IH"(1) [OF True Nil] show ?thesis by (simp del: dropWhile_eq_Nil_conv)
      next
        case (Cons d r)
        with False True have "d \<noteq> CHR ''}''" by auto
        with True Cons "2.IH"(3) [OF True Cons this] show ?thesis by simp
      qed
    qed
    then show ?thesis by simp
  qed
qed

section \<open>The text outside the matches\<close>

lemma advances_eps [simp]: "advances eps"
  by (simp add: advances_def eps_def)

lemma advances_one [simp]: "advances (one p)"
  unfolding advances_def
proof (intro allI impI)
  fix s s'
  assume a: "s' \<in> set (one p s)"
  show "suffix (rest s') (rest s)"
  proof (cases "rest s")
    case Nil
    with a show ?thesis by (simp add: one_def)
  next
    case (Cons c cs)
    with a have "rest s' = cs" by (auto simp: one_def split: if_splits)
    with Cons show ?thesis by (simp add: suffix_Cons)
  qed
qed

lemma advances_chr [simp]: "advances (chr c)"
  by (simp add: chr_def)

lemma advances_seq [simp]: "advances a \<Longrightarrow> advances b \<Longrightarrow> advances (seq a b)"
  unfolding advances_def in_seq by (meson suffix_order.trans)

lemma advances_seqs [simp]: "list_all advances ms \<Longrightarrow> advances (seqs ms)"
  by (induction ms) (simp_all add: seqs_def)

lemma advances_lit [simp]: "advances (lit w)"
  unfolding lit_def by (rule advances_seqs) (simp add: list_all_iff)

lemma advances_opt [simp]: "advances a \<Longrightarrow> advances (opt a)"
  unfolding advances_def opt_def alt_def eps_def by auto

lemma star_run_suffix: "(pv', r) \<in> set (star_run p pv cs) \<Longrightarrow> suffix r cs"
  by (induction cs arbitrary: pv) (auto simp: suffix_Cons split: if_splits)

lemma lazy_run_suffix: "(pv', r) \<in> set (lazy_run p pv cs) \<Longrightarrow> suffix r cs"
  by (induction cs arbitrary: pv) (auto simp: suffix_Cons split: if_splits)

lemma advances_star [simp]: "advances (star p)"
  using star_run_suffix by (auto simp: advances_def star_def)

lemma advances_star_lazy [simp]: "advances (star_lazy p)"
  using lazy_run_suffix by (auto simp: advances_def star_lazy_def)

lemma advances_plus [simp]: "advances (plus p)"
  by (simp add: plus_def)

lemma advances_grp [simp]: "advances a \<Longrightarrow> advances (grp k a)"
  unfolding advances_def grp_def by auto

lemma advances_bol [simp]: "advances bol"
  by (auto simp: advances_def bol_def split: if_splits)










lemma gap_ok_Nil [simp]: "gap_ok []"
  by (simp add: gap_ok_def)


























lemma run_then_brace:
  assumes "list_all not_brace expr"
  shows "dropWhile not_brace (expr @ CHR ''}'' # r) = CHR ''}'' # r"
    and "takeWhile not_brace (expr @ CHR ''}'' # r) = expr"
  using assms by (induction expr) (simp_all add: not_brace_def)

lemma protect_attribute:
  assumes "list_all not_brace expr"
  shows "protect (''return <Tag name={'' @ expr @ ''} />;'')
           = Inr (''return <Tag name=__PROTECTED_0__ />;'', [''{'' @ expr @ ''}''])"
proof -
  have p: "placeholder 0 = ''__PROTECTED_0__''" by code_simp
  have t: "tokens (''return <Tag name={'' @ expr @ ''} />;'')
      = map Lit ''return <Tag name='' @ Hole (''{'' @ expr @ ''}'') # map Lit '' />;''"
    using run_then_brace [OF assms, of "'' />;''"] by (simp add: not_brace_def)
  show ?thesis
    unfolding protect_def protect_scan t by (simp add: p)
qed

section \<open>The claims\<close>

text \<open>
  C1.  The specification says that the buffer \<^verbatim>\<open>return <Tag name={expr} />;\<close> comes
  out of the whole pipeline as \<^verbatim>\<open>return React.createElement('Tag', { name: expr });\<close>.
  The code does not do this.  The protection replaces \<^verbatim>\<open>{x}\<close> by
  \<^verbatim>\<open>__PROTECTED_0__\<close> before \<^verbatim>\<open>parse_attributes\<close> sees the attribute list, so
  \<^verbatim>\<open>name\<close> has no value the pattern recognises and the placeholder is read as a second
  attribute: the result, evaluated here for \<^verbatim>\<open>expr = x\<close>, is
  \<^verbatim>\<open>{ name: true, {x}: true }\<close>.
\<close>

theorem pipeline_attribute_expression_lost:
  \<open>convert_jsx_to_createElement ''return <Tag name={x} />;''
     = Inr ''return React.createElement('Tag', { name: true, {x}: true });''\<close>
  by code_simp

text \<open>
  The same happens for every expression without braces: the expression comes back, with
  its braces, as the key of a second entry.
\<close>

lemma pipeline_attribute_expression_lost_every:
  assumes "list_all not_brace expr"
  shows \<open>convert_jsx_to_createElement (''return <Tag name={'' @ expr @ ''} />;'')
     = Inr (''return React.createElement('Tag', { name: true, {'' @ expr @ ''}: true });'')\<close>
proof -
  have 1: "re_sub return_paren_re convert_return_jsx () None ''return <Tag name=__PROTECTED_0__ />;''
      = Inr (''return <Tag name=__PROTECTED_0__ />;'', ())"
    by code_simp
  have 2: \<open>re_sub return_inline_re convert_return_jsx () None ''return <Tag name=__PROTECTED_0__ />;''
      = Inr (''return React.createElement('Tag', { name: true, __PROTECTED_0__: true });'', ())\<close>
    by code_simp
  have p: "placeholder 0 = ''__PROTECTED_0__''" by code_simp
  have 3: \<open>replace ''__PROTECTED_0__'' e
      ''return React.createElement('Tag', { name: true, __PROTECTED_0__: true });''
      = ''return React.createElement('Tag', { name: true, '' @ e @ '': true });''\<close> for e
    by simp
  show ?thesis
    unfolding convert_jsx_to_createElement_def protect_attribute [OF assms]
    by (simp only: bnd_def 1 2 3 p sum.case prod.case restore.simps) simp
qed

text \<open>
  C2.  The specification says that protecting a buffer and restoring it at once gives the
  buffer back, for any buffer.  This fails for a buffer that already contains the text of
  a placeholder: on \<^verbatim>\<open>__PROTECTED_0__{a}\<close> the result is \<^verbatim>\<open>{a}{a}\<close>.  It holds for every buffer in which
  the text \<^verbatim>\<open>PROTECTED_\<close> does not occur.
\<close>

theorem protect_restore_roundtrip:
  assumes "\<not> sublist ''PROTECTED_'' buf"
  shows "protect_then_restore buf = Inr buf"
proof -
  from assms have "\<not> sublist ''PROTECTED_'' ([] @ flat (tokens buf))"
    by (simp add: flat_tokens)
  from restore_render [OF this, of 0]
  have "restore 0 (holes (tokens buf)) (render 0 (tokens buf)) = buf"
    by (simp add: flat_tokens)
  then show ?thesis
    by (simp add: protect_then_restore_def protect_def protect_scan bnd_def)
qed

theorem protect_restore_roundtrip_witness:
  "\<not> sublist ''PROTECTED_'' ''f({a}, {b}) + {c{d}e} // __PROTECTED''
   \<and> protect_then_restore ''f({a}, {b}) + {c{d}e} // __PROTECTED''
       = Inr ''f({a}, {b}) + {c{d}e} // __PROTECTED''"
proof -
  have 1: "\<not> sublist ''PROTECTED_'' ''f({a}, {b}) + {c{d}e} // __PROTECTED''"
    by (simp add: sublist_Cons_right)
  from protect_restore_roundtrip [OF 1] 1 show ?thesis by simp
qed

theorem protect_restore_collision:
  "protect_then_restore ''__PROTECTED_0__{a}'' = Inr ''{a}{a}''
   \<and> protect_then_restore ''__PROTECTED_0__{a}'' \<noteq> Inr ''__PROTECTED_0__{a}''"
  by code_simp

text \<open>
  The absence of \<^verbatim>\<open>__PROTECTED_\<close> alone is not enough: the end of one placeholder and
  the text after it can form another.
\<close>

lemma protect_restore_boundary:
  "\<not> sublist ''__PROTECTED_'' ''{a}{b}PROTECTED_0__''
   \<and> protect_then_restore ''{a}{b}PROTECTED_0__'' = Inr ''{a}__PROTECTED_1{a}''"
  by (simp add: sublist_Cons_right) code_simp

text \<open>
  C3.  Called on the attribute list \<^verbatim>\<open>class="a" data-x="y" onClick={fn}\<close>,
  \<^verbatim>\<open>parse_attributes\<close> returns \<^verbatim>\<open>{ className: 'a', 'data-x': 'y', onClick: fn }\<close>:
  \<^verbatim>\<open>class\<close> is renamed, the name with a hyphen is a quoted key, and the entries
  keep the order of the source, joined by a comma and a space.
\<close>

theorem parse_attributes_example:
  \<open>parse_attributes ''class="a" data-x="y" onClick={fn}''
     = Inr ''{ className: 'a', 'data-x': 'y', onClick: fn }''\<close>
  by code_simp

text \<open>
  C4.  The specification says that a quoted attribute value is emitted as its text in
  single quotes, for the empty text too.  The code tests the groups by truth value, and
  an empty group is false: for \<^verbatim>\<open>name=""\<close> and for \<^verbatim>\<open>name=''\<close> the value emitted is
  \<^verbatim>\<open>true\<close>, not the empty string literal.
\<close>

theorem parse_attributes_empty_string_value:
  \<open>parse_attributes ''name=""'' = Inr ''{ name: true }''
   \<and> parse_attributes (''name='' @ [sq] @ [sq]) = Inr ''{ name: true }''\<close>
  by code_simp




text \<open>
  C6.  \<^verbatim>\<open>convert_jsx_element\<close> turns \<^verbatim>\<open><Input value={v} />\<close> into
  \<^verbatim>\<open>React.createElement('Input', { value: v })\<close>.  Whenever the self-closing pattern
  matches, the result is the call with two arguments: the tag of the match in single
  quotes and what \<^verbatim>\<open>parse_attributes\<close> returns for the attributes of the match.
\<close>

theorem self_closing_two_arguments:
  \<open>convert_jsx_element ''<Input value={v} />'' indent
     = Inr ''React.createElement('Input', { value: v })''
   \<and> (re_match self_closing_re (strip jsx) = Some m \<longrightarrow>
        (\<exists>tag attrs props. group m 1 = Some tag \<and> group m 2 = Some attrs
           \<and> parse_attributes attrs = Inr props
           \<and> convert_jsx_element jsx indent
               = Inr (''React.createElement('' @ [sq] @ tag @ [sq] @ '', '' @ props @ '')'')))\<close>
proof (intro conjI impI)
  show \<open>convert_jsx_element ''<Input value={v} />'' indent
     = Inr ''React.createElement('Input', { value: v })''\<close>
    by code_simp
next
  assume "re_match self_closing_re (strip jsx) = Some m"
  then show "\<exists>tag attrs props. group m 1 = Some tag \<and> group m 2 = Some attrs
           \<and> parse_attributes attrs = Inr props
           \<and> convert_jsx_element jsx indent
               = Inr (''React.createElement('' @ [sq] @ tag @ [sq] @ '', '' @ props @ '')'')"
    by (rule convert_self_closing_gen)
qed

theorem self_closing_two_arguments_witness:
  \<open>\<exists>m tag attrs props. re_match self_closing_re (strip ''<br class="x"/>'') = Some m
     \<and> group m 1 = Some tag \<and> group m 2 = Some attrs
     \<and> parse_attributes attrs = Inr props
     \<and> convert_jsx_element ''<br class="x"/>'' ''  ''
         = Inr (''React.createElement('' @ [sq] @ tag @ [sq] @ '', '' @ props @ '')'')\<close>
proof -
  have \<open>map_option (\<lambda>m. group m 1) (re_match self_closing_re (strip ''<br class="x"/>''))
          = Some (Some ''br'')\<close>
    by code_simp
  then obtain m where m: \<open>re_match self_closing_re (strip ''<br class="x"/>'') = Some m\<close>
    by auto
  from self_closing_two_arguments [of "''  ''" \<open>''<br class="x"/>''\<close> m] m
  show ?thesis by blast
qed

text \<open>
  C7.  \<^verbatim>\<open>convert_jsx_element\<close> turns \<^verbatim>\<open><br></br>\<close> and \<^verbatim>\<open><br/>\<close> into
  \<^verbatim>\<open>React.createElement('br', null)\<close>.  An attribute list that is empty after
  stripping is translated to \<^verbatim>\<open>null\<close>, and when the element pattern matches with
  children that are empty after stripping, the result is the call with two arguments,
  of the same shape as for a self-closing element.
\<close>

theorem empty_element_two_arguments:
  \<open>convert_jsx_element ''<br></br>'' indent = Inr ''React.createElement('br', null)''
   \<and> convert_jsx_element ''<br/>'' indent = Inr ''React.createElement('br', null)''
   \<and> (strip attrs_str = [] \<longrightarrow> parse_attributes attrs_str = Inr ''null'')
   \<and> (re_match self_closing_re (strip jsx) = None \<and> re_match element_re (strip jsx) = Some m
        \<and> group m 3 = Some children \<and> strip children = [] \<longrightarrow>
        (\<exists>tag attrs props. group m 1 = Some tag \<and> group m 2 = Some attrs
           \<and> parse_attributes attrs = Inr props
           \<and> convert_jsx_element jsx indent
               = Inr (''React.createElement('' @ [sq] @ tag @ [sq] @ '', '' @ props @ '')'')))\<close>
proof (intro conjI impI)
  show \<open>convert_jsx_element ''<br></br>'' indent = Inr ''React.createElement('br', null)''\<close>
    by code_simp
  show \<open>convert_jsx_element ''<br/>'' indent = Inr ''React.createElement('br', null)''\<close>
    by code_simp
  show "parse_attributes attrs_str = Inr ''null''" if "strip attrs_str = []"
    using that by (simp add: parse_attributes_def)
next
  assume a: "re_match self_closing_re (strip jsx) = None \<and> re_match element_re (strip jsx) = Some m
        \<and> group m 3 = Some children \<and> strip children = []"
  then have "re_match self_closing_re (strip jsx) = None"
    and "re_match element_re (strip jsx) = Some m" by simp_all
  from convert_element_gen [OF this, of indent] a
  show "\<exists>tag attrs props. group m 1 = Some tag \<and> group m 2 = Some attrs
           \<and> parse_attributes attrs = Inr props
           \<and> convert_jsx_element jsx indent
               = Inr (''React.createElement('' @ [sq] @ tag @ [sq] @ '', '' @ props @ '')'')"
    by auto
qed

theorem empty_element_two_arguments_witness:
  \<open>strip ''  '' = [] \<and> parse_attributes ''  '' = Inr ''null''
   \<and> re_match self_closing_re (strip ''<p id="a"> </p>'') = None
   \<and> (\<exists>m tag attrs props. re_match element_re (strip ''<p id="a"> </p>'') = Some m
        \<and> group m 3 = Some '' '' \<and> strip '' '' = []
        \<and> group m 1 = Some tag \<and> group m 2 = Some attrs
        \<and> parse_attributes attrs = Inr props
        \<and> convert_jsx_element ''<p id="a"> </p>'' []
            = Inr (''React.createElement('' @ [sq] @ tag @ [sq] @ '', '' @ props @ '')''))\<close>
proof -
  have 1: "strip ''  '' = []" by code_simp
  have 2: \<open>re_match self_closing_re (strip ''<p id="a"> </p>'') = None\<close> by code_simp
  have \<open>map_option (\<lambda>m. group m 3) (re_match element_re (strip ''<p id="a"> </p>''))
          = Some (Some '' '')\<close>
    by code_simp
  then obtain m where 3: \<open>re_match element_re (strip ''<p id="a"> </p>'') = Some m\<close>
    and 4: "group m 3 = Some '' ''"
    by auto
  have 5: "strip '' '' = []" by code_simp
  from empty_element_two_arguments [of "[]" "''  ''" \<open>''<p id="a"> </p>''\<close> m "'' ''"]
    1 2 3 4 5
  show ?thesis by blast
qed

text \<open>
  C8.  For children text that is already stripped, \<^verbatim>\<open>convert_children\<close> returns the
  text in single quotes, and for children text that contains \<^verbatim>\<open><\<close> it returns the
  whole raw text in single quotes: nothing nested is converted.  So
  \<^verbatim>\<open><div>Hello</div>\<close> becomes the call with three arguments whose third argument is
  \<^verbatim>\<open>'Hello'\<close>, and whenever the element pattern matches with children that are not
  empty after stripping, the third argument is the stripped children in single quotes.
\<close>

theorem children_single_quoted:
  \<open>(strip t = t \<longrightarrow> convert_children t indent = [sq] @ t @ [sq])
   \<and> (CHR ''<'' \<in> set t \<longrightarrow> convert_children t indent = [sq] @ t @ [sq])
   \<and> convert_jsx_element ''<div>Hello</div>'' indent
       = Inr (''React.createElement('' @ [NL]
              @ indent @ ''  '' @ [sq] @ ''div'' @ [sq] @ '','' @ [NL]
              @ indent @ ''  null,'' @ [NL]
              @ indent @ ''  '' @ [sq] @ ''Hello'' @ [sq] @ [NL]
              @ indent @ '')'')
   \<and> (re_match self_closing_re (strip jsx) = None \<and> re_match element_re (strip jsx) = Some m
        \<and> group m 3 = Some children \<and> strip children \<noteq> [] \<longrightarrow>
        (\<exists>tag attrs props. group m 1 = Some tag \<and> group m 2 = Some attrs
           \<and> parse_attributes attrs = Inr props
           \<and> convert_jsx_element jsx indent
               = Inr (''React.createElement('' @ [NL]
                      @ indent @ ''  '' @ [sq] @ tag @ [sq] @ '','' @ [NL]
                      @ indent @ ''  '' @ props @ '','' @ [NL]
                      @ indent @ ''  '' @ [sq] @ strip children @ [sq] @ [NL]
                      @ indent @ '')'')))\<close>
proof (intro conjI impI)
  show "convert_children t indent = [sq] @ t @ [sq]" if "strip t = t"
    using that by (simp add: convert_children_def)
  show "convert_children t indent = [sq] @ t @ [sq]" if "CHR ''<'' \<in> set t"
    using that by (simp add: convert_children_def)
  show \<open>convert_jsx_element ''<div>Hello</div>'' indent
       = Inr (''React.createElement('' @ [NL]
              @ indent @ ''  '' @ [sq] @ ''div'' @ [sq] @ '','' @ [NL]
              @ indent @ ''  null,'' @ [NL]
              @ indent @ ''  '' @ [sq] @ ''Hello'' @ [sq] @ [NL]
              @ indent @ '')'')\<close>
    by code_simp
next
  assume a: "re_match self_closing_re (strip jsx) = None \<and> re_match element_re (strip jsx) = Some m
        \<and> group m 3 = Some children \<and> strip children \<noteq> []"
  then have "re_match self_closing_re (strip jsx) = None"
    and "re_match element_re (strip jsx) = Some m" by simp_all
  from convert_element_gen [OF this, of indent] a
  show "\<exists>tag attrs props. group m 1 = Some tag \<and> group m 2 = Some attrs
           \<and> parse_attributes attrs = Inr props
           \<and> convert_jsx_element jsx indent
               = Inr (''React.createElement('' @ [NL]
                      @ indent @ ''  '' @ [sq] @ tag @ [sq] @ '','' @ [NL]
                      @ indent @ ''  '' @ props @ '','' @ [NL]
                      @ indent @ ''  '' @ [sq] @ strip children @ [sq] @ [NL]
                      @ indent @ '')'')"
    by auto
qed

theorem children_single_quoted_witness:
  \<open>strip ''a b'' = ''a b'' \<and> convert_children ''a b'' [] = [sq] @ ''a b'' @ [sq]
   \<and> CHR ''<'' \<in> set '' <b>x</b>''
   \<and> convert_children '' <b>x</b>'' [] = [sq] @ '' <b>x</b>'' @ [sq]
   \<and> re_match self_closing_re (strip ''<ul> <li>x</li> </ul>'') = None
   \<and> (\<exists>m tag attrs props. re_match element_re (strip ''<ul> <li>x</li> </ul>'') = Some m
        \<and> group m 3 = Some '' <li>x</li> '' \<and> strip '' <li>x</li> '' \<noteq> []
        \<and> group m 1 = Some tag \<and> group m 2 = Some attrs
        \<and> parse_attributes attrs = Inr props
        \<and> convert_jsx_element ''<ul> <li>x</li> </ul>'' []
            = Inr (''React.createElement('' @ [NL]
                   @ [] @ ''  '' @ [sq] @ tag @ [sq] @ '','' @ [NL]
                   @ [] @ ''  '' @ props @ '','' @ [NL]
                   @ [] @ ''  '' @ [sq] @ strip '' <li>x</li> '' @ [sq] @ [NL]
                   @ [] @ '')''))\<close>
proof -
  have 1: "strip ''a b'' = ''a b''" by code_simp
  have 2: "CHR ''<'' \<in> set '' <b>x</b>''" by simp
  have 3: \<open>re_match self_closing_re (strip ''<ul> <li>x</li> </ul>'') = None\<close> by code_simp
  have \<open>map_option (\<lambda>m. group m 3) (re_match element_re (strip ''<ul> <li>x</li> </ul>''))
          = Some (Some '' <li>x</li> '')\<close>
    by code_simp
  then obtain m where 4: \<open>re_match element_re (strip ''<ul> <li>x</li> </ul>'') = Some m\<close>
    and 5: "group m 3 = Some '' <li>x</li> ''"
    by auto
  have 6: "strip '' <li>x</li> '' \<noteq> []" by code_simp
  from children_single_quoted [of "''a b''" "[]"] 1
  have a: "convert_children ''a b'' [] = [sq] @ ''a b'' @ [sq]" by blast
  from children_single_quoted [of "'' <b>x</b>''" "[]"] 2
  have b: "convert_children '' <b>x</b>'' [] = [sq] @ '' <b>x</b>'' @ [sq]" by blast
  from children_single_quoted [of _ "[]" \<open>''<ul> <li>x</li> </ul>''\<close> m "'' <li>x</li> ''"]
    3 4 5 6
  have c: \<open>\<exists>tag attrs props. group m 1 = Some tag \<and> group m 2 = Some attrs
        \<and> parse_attributes attrs = Inr props
        \<and> convert_jsx_element ''<ul> <li>x</li> </ul>'' []
            = Inr (''React.createElement('' @ [NL]
                   @ [] @ ''  '' @ [sq] @ tag @ [sq] @ '','' @ [NL]
                   @ [] @ ''  '' @ props @ '','' @ [NL]
                   @ [] @ ''  '' @ [sq] @ strip '' <li>x</li> '' @ [sq] @ [NL]
                   @ [] @ '')'')\<close>
    by blast
  from 1 2 3 4 5 6 a b c show ?thesis by blast
qed

text \<open>
  C9.  When neither the self-closing pattern nor the element pattern matches the stripped
  input, \<^verbatim>\<open>convert_jsx_element\<close> returns its input as it was given.  No call raises:
  \<^verbatim>\<open>convert_jsx_element\<close>, \<^verbatim>\<open>parse_attributes\<close> and the whole pipeline return a
  string on every input.
\<close>

theorem fallback_and_no_error:
  "(re_match self_closing_re (strip jsx) = None \<and> re_match element_re (strip jsx) = None \<longrightarrow>
      convert_jsx_element jsx indent = Inr jsx)
   \<and> (\<exists>r. convert_jsx_element jsx indent = Inr r)
   \<and> (\<exists>r. parse_attributes attrs_str = Inr r)
   \<and> (\<exists>r. convert_jsx_to_createElement content = Inr r)"
  using convert_jsx_element_ok parse_attributes_ok pipeline_ok
  by (simp add: convert_jsx_element_def)

theorem fallback_and_no_error_witness:
  "re_match self_closing_re (strip '' <div>x</b> '') = None
   \<and> re_match element_re (strip '' <div>x</b> '') = None
   \<and> convert_jsx_element '' <div>x</b> '' ''  '' = Inr '' <div>x</b> ''"
proof -
  have 1: "re_match self_closing_re (strip '' <div>x</b> '') = None" by code_simp
  have 2: "re_match element_re (strip '' <div>x</b> '') = None" by code_simp
  from fallback_and_no_error [of "'' <div>x</b> ''" "''  ''"] 1 2
  show ?thesis by blast
qed

text \<open>
  C10.  For every attribute name (every text that the name part of the pattern matches
  whole), an attribute with an empty value, written \<^verbatim>\<open>name=""\<close>, \<^verbatim>\<open>name=''\<close> or
  \<^verbatim>\<open>name={}\<close>, makes the loop of \<^verbatim>\<open>parse_attributes\<close> append the entry
  \<^verbatim>\<open>key: true\<close> and go on with the text after the value, where \<open>key\<close> is the name
  after renaming.  This is the entry of the attribute without a value, and as the only
  attribute of a list each of the four forms gives the same literal.
\<close>

theorem empty_value_is_true:
  assumes "is_name nm"
  shows \<open>\<exists>key. attr_name (Some nm) = Inr key
     \<and> attr_loop acc (finditer attr_pattern pv (nm @ ''=""'' @ r))
         = attr_loop (acc @ [key @ '': true'']) (finditer attr_pattern (Some dq) r)
     \<and> attr_loop acc (finditer attr_pattern pv (nm @ [CHR ''='', sq, sq] @ r))
         = attr_loop (acc @ [key @ '': true'']) (finditer attr_pattern (Some sq) r)
     \<and> attr_loop acc (finditer attr_pattern pv (nm @ ''={}'' @ r))
         = attr_loop (acc @ [key @ '': true'']) (finditer attr_pattern (Some CHR ''}'') r)
     \<and> attr_loop acc (finditer attr_pattern pv nm) = Inr (acc @ [key @ '': true''])
     \<and> parse_attributes (nm @ ''=""'') = Inr (''{ '' @ key @ '': true }'')
     \<and> parse_attributes (nm @ [CHR ''='', sq, sq]) = Inr (''{ '' @ key @ '': true }'')
     \<and> parse_attributes (nm @ ''={}'') = Inr (''{ '' @ key @ '': true }'')
     \<and> parse_attributes nm = Inr (''{ '' @ key @ '': true }'')\<close>
proof -
  obtain key where k: "attr_name (Some nm) = Inr key"
    using attr_name_ok by blast
  have 1: \<open>attr_loop a (finditer attr_pattern p (nm @ ''=""'' @ t))
         = attr_loop (a @ [key @ '': true'']) (finditer attr_pattern (Some dq) t)\<close> for a p t
    using attr_match_dq [OF assms, of p t] attr_loop_valued [OF assms k] by blast
  have 2: \<open>attr_loop a (finditer attr_pattern p (nm @ [CHR ''='', sq, sq] @ t))
         = attr_loop (a @ [key @ '': true'']) (finditer attr_pattern (Some sq) t)\<close> for a p t
    using attr_match_sq [OF assms, of p t] attr_loop_valued [OF assms k] by blast
  have 3: \<open>attr_loop a (finditer attr_pattern p (nm @ ''={}'' @ t))
         = attr_loop (a @ [key @ '': true'']) (finditer attr_pattern (Some CHR ''}'') t)\<close> for a p t
    using attr_match_brace [OF assms, of p t] attr_loop_valued [OF assms k] by blast
  have 4: "attr_loop a (finditer attr_pattern p nm) = Inr (a @ [key @ '': true''])" for a p
    by (rule attr_loop_bare [OF assms k])
  have n: "finditer attr_pattern p [] = []" for p
    by (simp add: match_at_attr_Nil)
  have 5: \<open>parse_attributes (nm @ ''=""'') = Inr (''{ '' @ key @ '': true }'')\<close>
    using 1 [of "[]" None "[]"] strip_name_ne [OF assms] n
    by (simp add: parse_attributes_def bnd_def)
  have 6: \<open>parse_attributes (nm @ [CHR ''='', sq, sq]) = Inr (''{ '' @ key @ '': true }'')\<close>
    using 2 [of "[]" None "[]"] strip_name_ne [OF assms] n
    by (simp add: parse_attributes_def bnd_def)
  have 7: \<open>parse_attributes (nm @ ''={}'') = Inr (''{ '' @ key @ '': true }'')\<close>
    using 3 [of "[]" None "[]"] strip_name_ne [OF assms] n
    by (simp add: parse_attributes_def bnd_def)
  have 8: \<open>parse_attributes nm = Inr (''{ '' @ key @ '': true }'')\<close>
    using 4 [of "[]" None] strip_name_ne [OF assms, of "[]"]
    by (simp add: parse_attributes_def bnd_def)
  from k 1 2 3 4 5 6 7 8 show ?thesis by blast
qed

theorem empty_value_is_true_witness:
  \<open>is_name ''data-x''
   \<and> parse_attributes ''data-x=""'' = Inr ''{ 'data-x': true }''
   \<and> parse_attributes ''data-x={}'' = Inr ''{ 'data-x': true }''
   \<and> parse_attributes ''data-x'' = Inr ''{ 'data-x': true }''\<close>
proof -
  have n: "is_name ''data-x''" by code_simp
  have k: \<open>attr_name (Some ''data-x'') = Inr (sq # ''data-x'' @ [sq])\<close> by code_simp
  from empty_value_is_true [OF n, of "[]" None "[]"] obtain key
    where a: "attr_name (Some ''data-x'') = Inr key"
      and b: \<open>parse_attributes (''data-x'' @ ''=""'') = Inr (''{ '' @ key @ '': true }'')\<close>
      and c: \<open>parse_attributes (''data-x'' @ ''={}'') = Inr (''{ '' @ key @ '': true }'')\<close>
      and d: \<open>parse_attributes ''data-x'' = Inr (''{ '' @ key @ '': true }'')\<close>
    by blast
  from a k have "key = sq # ''data-x'' @ [sq]" by simp
  with b c d n show ?thesis by (simp add: sq_def)
qed

end
